theory Spec2Isabelle
  imports Main "HOL-Library.Word" "HOL-Library.Log_Nat" "HOL-Library.Monad_Syntax"
begin

unbundle bit_operations_syntax

section \<open>Build configuration and numeric domain constants\<close>

text \<open>
  The source is compiled twice: without \<^verbatim>\<open>P4_TO_P8\<close> it is the 2D library
  (quadtrees), with it the 3D library (octrees). The macros \<^verbatim>\<open>P4EST_MAXLEVEL\<close>,
  \<^verbatim>\<open>P4EST_QMAXLEVEL\<close>, \<^verbatim>\<open>P4EST_ROOT_LEN\<close> and \<^verbatim>\<open>P4EST_QUADRANT_LEN\<close>
  come from headers that are not among the sources. A \<open>build\<close> carries the
  compile-time switch and the maximum level; the other constants are derived from it.
\<close>

record build =
  P4_TO_P8 :: bool
  P4EST_MAXLEVEL :: int

definition P4EST_DIM :: "build \<Rightarrow> nat" where
  "P4EST_DIM b = (if P4_TO_P8 b then 3 else 2)"

definition P4EST_CHILDREN :: "build \<Rightarrow> int" where
  "P4EST_CHILDREN b = (if P4_TO_P8 b then 8 else 4)"

text \<open>
  Modelled from the spec: the macro \<^verbatim>\<open>P4EST_QMAXLEVEL\<close> is missing; strict validity has
  \<open>level \<in> [0, MAXLEVEL-1]\<close>, the level \<open>MAXLEVEL\<close> being reserved for nodes.
\<close>

definition P4EST_QMAXLEVEL :: "build \<Rightarrow> int" where
  "P4EST_QMAXLEVEL b = P4EST_MAXLEVEL b - 1"

text \<open>
  Modelled from the spec: the macros \<^verbatim>\<open>P4EST_ROOT_LEN\<close> and \<^verbatim>\<open>P4EST_QUADRANT_LEN\<close> are
  missing; the side length at level \<open>l\<close> is the domain length divided by \<open>2 ^ l\<close>, and a
  node (level \<open>MAXLEVEL\<close>) has side length one, so the domain length is \<open>2 ^ MAXLEVEL\<close>.
  Coordinates are \<^verbatim>\<open>p4est_qcoord_t\<close>, a 32-bit signed integer. A shift by a negative
  amount is undefined in C and is never reached below an assertion that passed; the
  model shifts by \<open>0\<close> there.
\<close>

definition P4EST_ROOT_LEN :: "build \<Rightarrow> 32 word" where
  "P4EST_ROOT_LEN b = push_bit (nat (P4EST_MAXLEVEL b)) 1"

definition P4EST_QUADRANT_LEN :: "build \<Rightarrow> int \<Rightarrow> 32 word" where
  "P4EST_QUADRANT_LEN b l = push_bit (nat (P4EST_MAXLEVEL b - l)) 1"

text \<open>
  The builds in which no shift of the source leaves its type: the coordinates of the
  3x-enlarged domain fit 32 bits, and a linear id of \<open>MAXLEVEL + 2\<close> bits per axis
  fits 64 bits.
\<close>

definition wf_build :: "build \<Rightarrow> bool" where
  "wf_build b \<longleftrightarrow> 1 \<le> P4EST_MAXLEVEL b \<and> P4EST_MAXLEVEL b \<le> 30 \<and>
     int (P4EST_DIM b) * (P4EST_MAXLEVEL b + 2) \<le> 64"

section \<open>Quadrants\<close>

text \<open>
  \<^verbatim>\<open>p4est_quadrant_t\<close>: coordinates of type \<^verbatim>\<open>int32_t\<close> and a level of type
  \<^verbatim>\<open>int8_t\<close>. The 2D struct has no \<open>z\<close>; the 2D build never reads or writes the
  field \<open>q_z\<close>. Functions that write through an output pointer \<open>r\<close> take the old
  contents of \<open>r\<close> and return the new ones.
\<close>

record p4est_quadrant_t =
  q_x :: "32 word"
  q_y :: "32 word"
  q_z :: "32 word"
  q_level :: "8 word"

text \<open>
  \<^verbatim>\<open>P4EST_ASSERT\<close> aborts the program when its condition is false (debug build);
  an aborted call is \<open>None\<close>.
\<close>

definition P4EST_ASSERT :: "bool \<Rightarrow> unit option" where
  "P4EST_ASSERT c = (if c then Some () else None)"

definition p4est_quadrant_is_inside_root :: "build \<Rightarrow> p4est_quadrant_t \<Rightarrow> bool" where
  "p4est_quadrant_is_inside_root b q \<longleftrightarrow>
     (0 \<le>s q_x q \<and> q_x q <s P4EST_ROOT_LEN b) \<and>
     (0 \<le>s q_y q \<and> q_y q <s P4EST_ROOT_LEN b) \<and>
     (P4_TO_P8 b \<longrightarrow> (0 \<le>s q_z q \<and> q_z q <s P4EST_ROOT_LEN b))"

definition p4est_quadrant_is_inside_3x3 :: "build \<Rightarrow> p4est_quadrant_t \<Rightarrow> bool" where
  "p4est_quadrant_is_inside_3x3 b q \<longleftrightarrow>
     (- P4EST_ROOT_LEN b \<le>s q_x q \<and>
      q_x q \<le>s P4EST_ROOT_LEN b + (P4EST_ROOT_LEN b - 1)) \<and>
     (- P4EST_ROOT_LEN b \<le>s q_y q \<and>
      q_y q \<le>s P4EST_ROOT_LEN b + (P4EST_ROOT_LEN b - 1)) \<and>
     (P4_TO_P8 b \<longrightarrow>
       (- P4EST_ROOT_LEN b \<le>s q_z q \<and>
        q_z q \<le>s P4EST_ROOT_LEN b + (P4EST_ROOT_LEN b - 1)))"

definition node_coord_ok :: "build \<Rightarrow> bool \<Rightarrow> 32 word \<Rightarrow> bool" where
  "node_coord_ok b inside c \<longleftrightarrow>
     (c AND (push_bit (nat (P4EST_MAXLEVEL b - P4EST_QMAXLEVEL b)) 1 - 1) = 0
      \<or> (inside \<and> c = P4EST_ROOT_LEN b - 1))"

definition p4est_quadrant_is_node :: "build \<Rightarrow> p4est_quadrant_t \<Rightarrow> bool \<Rightarrow> bool" where
  "p4est_quadrant_is_node b q inside \<longleftrightarrow>
     sint (q_level q) = P4EST_MAXLEVEL b \<and>
     0 \<le>s q_x q \<and> q_x q \<le>s P4EST_ROOT_LEN b - (if inside then 1 else 0) \<and>
     0 \<le>s q_y q \<and> q_y q \<le>s P4EST_ROOT_LEN b - (if inside then 1 else 0) \<and>
     (P4_TO_P8 b \<longrightarrow>
        0 \<le>s q_z q \<and> q_z q \<le>s P4EST_ROOT_LEN b - (if inside then 1 else 0)) \<and>
     node_coord_ok b inside (q_x q) \<and>
     node_coord_ok b inside (q_y q) \<and>
     (P4_TO_P8 b \<longrightarrow> node_coord_ok b inside (q_z q))"

definition p4est_quadrant_is_valid :: "build \<Rightarrow> p4est_quadrant_t \<Rightarrow> bool" where
  "p4est_quadrant_is_valid b q \<longleftrightarrow>
     (0 \<le> sint (q_level q) \<and> sint (q_level q) \<le> P4EST_QMAXLEVEL b) \<and>
     q_x q AND (P4EST_QUADRANT_LEN b (sint (q_level q)) - 1) = 0 \<and>
     q_y q AND (P4EST_QUADRANT_LEN b (sint (q_level q)) - 1) = 0 \<and>
     (P4_TO_P8 b \<longrightarrow> q_z q AND (P4EST_QUADRANT_LEN b (sint (q_level q)) - 1) = 0) \<and>
     p4est_quadrant_is_inside_root b q"

definition p4est_quadrant_is_extended :: "build \<Rightarrow> p4est_quadrant_t \<Rightarrow> bool" where
  "p4est_quadrant_is_extended b q \<longleftrightarrow>
     (0 \<le> sint (q_level q) \<and> sint (q_level q) \<le> P4EST_QMAXLEVEL b) \<and>
     q_x q AND (P4EST_QUADRANT_LEN b (sint (q_level q)) - 1) = 0 \<and>
     q_y q AND (P4EST_QUADRANT_LEN b (sint (q_level q)) - 1) = 0 \<and>
     (P4_TO_P8 b \<longrightarrow> q_z q AND (P4EST_QUADRANT_LEN b (sint (q_level q)) - 1) = 0) \<and>
     p4est_quadrant_is_inside_3x3 b q"

section \<open>Nodes\<close>

definition p4est_node_clamp_inside ::
    "build \<Rightarrow> p4est_quadrant_t \<Rightarrow> p4est_quadrant_t \<Rightarrow> p4est_quadrant_t option" where
  "p4est_node_clamp_inside b n r = do {
     P4EST_ASSERT (p4est_quadrant_is_node b n False);
     let r = r\<lparr>q_x := (if q_x n = P4EST_ROOT_LEN b then P4EST_ROOT_LEN b - 1 else q_x n)\<rparr>;
     let r = r\<lparr>q_y := (if q_y n = P4EST_ROOT_LEN b then P4EST_ROOT_LEN b - 1 else q_y n)\<rparr>;
     let r = (if P4_TO_P8 b
              then r\<lparr>q_z := (if q_z n = P4EST_ROOT_LEN b then P4EST_ROOT_LEN b - 1 else q_z n)\<rparr>
              else r);
     let r = r\<lparr>q_level := word_of_int (P4EST_MAXLEVEL b)\<rparr>;
     P4EST_ASSERT (p4est_quadrant_is_node b r True);
     Some r
   }"

definition p4est_node_unclamp :: "build \<Rightarrow> p4est_quadrant_t \<Rightarrow> p4est_quadrant_t option" where
  "p4est_node_unclamp b n = do {
     P4EST_ASSERT (p4est_quadrant_is_node b n True);
     let n = (if q_x n = P4EST_ROOT_LEN b - 1 then n\<lparr>q_x := P4EST_ROOT_LEN b\<rparr> else n);
     let n = (if q_y n = P4EST_ROOT_LEN b - 1 then n\<lparr>q_y := P4EST_ROOT_LEN b\<rparr> else n);
     let n = (if P4_TO_P8 b
              then (if q_z n = P4EST_ROOT_LEN b - 1 then n\<lparr>q_z := P4EST_ROOT_LEN b\<rparr> else n)
              else n);
     P4EST_ASSERT (p4est_quadrant_is_node b n False);
     Some n
   }"

section \<open>Parent\<close>

text \<open>
  The source calls \<^verbatim>\<open>p4est_quadrant_parent (&a, &a)\<close> with both pointers equal; each
  assignment reads only fields that are still unchanged, so the aliased call is
  \<open>p4est_quadrant_parent b a a\<close>.
\<close>

definition p4est_quadrant_parent ::
    "build \<Rightarrow> p4est_quadrant_t \<Rightarrow> p4est_quadrant_t \<Rightarrow> p4est_quadrant_t option" where
  "p4est_quadrant_parent b q r = do {
     P4EST_ASSERT (p4est_quadrant_is_extended b q);
     P4EST_ASSERT (0 < sint (q_level q));
     let r = r\<lparr>q_x := q_x q AND NOT (P4EST_QUADRANT_LEN b (sint (q_level q)))\<rparr>;
     let r = r\<lparr>q_y := q_y q AND NOT (P4EST_QUADRANT_LEN b (sint (q_level q)))\<rparr>;
     let r = (if P4_TO_P8 b
              then r\<lparr>q_z := q_z q AND NOT (P4EST_QUADRANT_LEN b (sint (q_level q)))\<rparr>
              else r);
     let r = r\<lparr>q_level := q_level q - 1\<rparr>;
     P4EST_ASSERT (p4est_quadrant_is_extended b r);
     Some r
   }"

lemma sint_level_pred:
  fixes l :: "8 word"
  assumes "0 < sint l"
  shows "sint (l - 1) = sint l - 1"
proof -
  have "sint l < 128" using sint_lt[of l] by simp
  then have "sint (l - 1) = signed_take_bit 7 (sint l - 1)"
    by (simp add: sint_word_ariths)
  also have "\<dots> = sint l - 1"
    using assms \<open>sint l < 128\<close> by (subst signed_take_bit_int_eq_self_iff) simp
  finally show ?thesis .
qed

lemma parent_level:
  assumes "p4est_quadrant_parent b q r = Some r'"
  shows "0 < sint (q_level q)" "sint (q_level r') = sint (q_level q) - 1"
proof -
  from assms show pos: "0 < sint (q_level q)"
    by (simp add: p4est_quadrant_parent_def P4EST_ASSERT_def Let_def split: if_splits)
  from assms have "q_level r' = q_level q - 1"
    by (auto simp add: p4est_quadrant_parent_def P4EST_ASSERT_def Let_def split: if_splits)
  with pos show "sint (q_level r') = sint (q_level q) - 1"
    by (simp add: sint_level_pred)
qed

section \<open>Equality and the total order\<close>

definition p4est_quadrant_is_equal ::
    "build \<Rightarrow> p4est_quadrant_t \<Rightarrow> p4est_quadrant_t \<Rightarrow> bool option" where
  "p4est_quadrant_is_equal b q1 q2 = do {
     P4EST_ASSERT (p4est_quadrant_is_node b q1 True \<or> p4est_quadrant_is_extended b q1);
     P4EST_ASSERT (p4est_quadrant_is_node b q2 True \<or> p4est_quadrant_is_extended b q2);
     Some ((q_level q1 = q_level q2 \<and> q_x q1 = q_x q2 \<and> q_y q1 = q_y q2) \<and>
           (P4_TO_P8 b \<longrightarrow> q_z q1 = q_z q2))
   }"

text \<open>
  Modelled from the spec: the macro \<^verbatim>\<open>SC_LOG2_32\<close> (of libsc) is missing; it is the
  primitive that locates the most significant set bit of a 32-bit value, and it is
  \<open>-1\<close> for \<open>0\<close>, where no bit is set.
\<close>

definition SC_LOG2_32 :: "32 word \<Rightarrow> int" where
  "SC_LOG2_32 w = int (floorlog 2 (unat w)) - 1"

text \<open>
  The operand of the final comparison, a 64-bit signed integer:
  \<^verbatim>\<open>c + ((c >= 0) ? 0 : ((int64_t) 1 << (P4EST_MAXLEVEL + 2)))\<close>.
\<close>

definition compare_operand :: "build \<Rightarrow> 32 word \<Rightarrow> 64 word" where
  "compare_operand b c =
     scast c + (if 0 \<le>s c then 0 else push_bit (nat (P4EST_MAXLEVEL b + 2)) 1)"

definition p4est_quadrant_compare ::
    "build \<Rightarrow> p4est_quadrant_t \<Rightarrow> p4est_quadrant_t \<Rightarrow> int option" where
  "p4est_quadrant_compare b q1 q2 = do {
     P4EST_ASSERT (p4est_quadrant_is_node b q1 True \<or> p4est_quadrant_is_extended b q1);
     P4EST_ASSERT (p4est_quadrant_is_node b q2 True \<or> p4est_quadrant_is_extended b q2);
     let exclorx = q_x q1 XOR q_x q2;
     let exclory = q_y q1 XOR q_y q2;
     let exclorz = q_z q1 XOR q_z q2;
     if exclory = 0 \<and> exclorx = 0 \<and> (P4_TO_P8 b \<longrightarrow> exclorz = 0)
     then Some (sint (q_level q1) - sint (q_level q2))
     else do {
       let log2x = SC_LOG2_32 exclorx;
       let log2y = SC_LOG2_32 exclory;
       let log2z = SC_LOG2_32 exclorz;
       let (p1, p2) =
         (if P4_TO_P8 b \<and> log2z \<ge> log2x \<and> log2z \<ge> log2y
          then (compare_operand b (q_z q1), compare_operand b (q_z q2))
          else if log2y \<ge> log2x
          then (compare_operand b (q_y q1), compare_operand b (q_y q2))
          else (compare_operand b (q_x q1), compare_operand b (q_x q2)));
       let diff = p1 - p2;
       Some (if diff = 0 then 0 else if diff <s 0 then - 1 else 1)
     }
   }"

section \<open>Child and ancestor ids\<close>

definition p4est_quadrant_ancestor_id :: "build \<Rightarrow> p4est_quadrant_t \<Rightarrow> int \<Rightarrow> int option" where
  "p4est_quadrant_ancestor_id b q level = do {
     P4EST_ASSERT (p4est_quadrant_is_extended b q);
     P4EST_ASSERT (0 \<le> level \<and> level \<le> P4EST_MAXLEVEL b);
     P4EST_ASSERT (sint (q_level q) \<ge> level);
     if level = 0 then Some 0
     else do {
       let cid = 0;
       let cid = cid OR (if q_x q AND P4EST_QUADRANT_LEN b level \<noteq> 0 then 1 else 0);
       let cid = cid OR (if q_y q AND P4EST_QUADRANT_LEN b level \<noteq> 0 then 2 else 0);
       let cid = (if P4_TO_P8 b
                 then cid OR (if q_z q AND P4EST_QUADRANT_LEN b level \<noteq> 0 then 4 else 0)
                 else cid);
       Some cid
     }
   }"

definition p4est_quadrant_child_id :: "build \<Rightarrow> p4est_quadrant_t \<Rightarrow> int option" where
  "p4est_quadrant_child_id b q = p4est_quadrant_ancestor_id b q (sint (q_level q))"

section \<open>Siblings, families, ancestors\<close>

text \<open>
  An uninitialised local \<^verbatim>\<open>p4est_quadrant_t\<close>; every field that exists in the build
  is written before it is read.
\<close>

definition local_quadrant :: p4est_quadrant_t where
  "local_quadrant = \<lparr>q_x = 0, q_y = 0, q_z = 0, q_level = 0\<rparr>"

text \<open>
  In \<^verbatim>\<open>p4est_quadrant_is_sibling\<close> the test of \<open>exclorz\<close> in the returned conjunction
  stands under \<^verbatim>\<open>#ifdef P4_To_P8\<close>, a macro that no build defines, so neither build
  compiles it.
\<close>

definition p4est_quadrant_is_sibling ::
    "build \<Rightarrow> p4est_quadrant_t \<Rightarrow> p4est_quadrant_t \<Rightarrow> bool option" where
  "p4est_quadrant_is_sibling b q1 q2 = do {
     P4EST_ASSERT (p4est_quadrant_is_extended b q1);
     P4EST_ASSERT (p4est_quadrant_is_extended b q2);
     if sint (q_level q1) = 0 then Some False
     else do {
       let exclorx = q_x q1 XOR q_x q2;
       let exclory = q_y q1 XOR q_y q2;
       let exclorz = q_z q1 XOR q_z q2;
       if (if P4_TO_P8 b then exclorx = 0 \<and> exclory = 0 \<and> exclorz = 0
           else exclorx = 0 \<and> exclory = 0)
       then Some False
       else Some (q_level q1 = q_level q2 \<and>
                  exclorx AND NOT (P4EST_QUADRANT_LEN b (sint (q_level q1))) = 0 \<and>
                  exclory AND NOT (P4EST_QUADRANT_LEN b (sint (q_level q1))) = 0)
     }
   }"

definition p4est_quadrant_is_sibling_D ::
    "build \<Rightarrow> p4est_quadrant_t \<Rightarrow> p4est_quadrant_t \<Rightarrow> bool option" where
  "p4est_quadrant_is_sibling_D b q1 q2 =
     (if sint (q_level q1) = 0 then Some False
      else do {
        e \<leftarrow> p4est_quadrant_is_equal b q1 q2;
        if e then Some False
        else do {
          p1 \<leftarrow> p4est_quadrant_parent b q1 local_quadrant;
          p2 \<leftarrow> p4est_quadrant_parent b q2 local_quadrant;
          p4est_quadrant_is_equal b p1 p2
        }
      })"

text \<open>
  \<^verbatim>\<open>p4est_quadrant_is_family\<close> and \<^verbatim>\<open>p4est_quadrant_children\<close> are compiled only
  without \<^verbatim>\<open>P4_TO_P8\<close>: the sources hold their 2D versions only. The additions are
  32-bit; where C leaves signed overflow undefined the model wraps around.
\<close>

definition p4est_quadrant_is_family ::
    "build \<Rightarrow> p4est_quadrant_t \<Rightarrow> p4est_quadrant_t \<Rightarrow> p4est_quadrant_t \<Rightarrow> p4est_quadrant_t
      \<Rightarrow> bool option" where
  "p4est_quadrant_is_family b q0 q1 q2 q3 = do {
     let level = q_level q0;
     P4EST_ASSERT (p4est_quadrant_is_extended b q0);
     P4EST_ASSERT (p4est_quadrant_is_extended b q1);
     P4EST_ASSERT (p4est_quadrant_is_extended b q2);
     P4EST_ASSERT (p4est_quadrant_is_extended b q3);
     if level = 0 \<or> level \<noteq> q_level q1 \<or> level \<noteq> q_level q2 \<or> level \<noteq> q_level q3
     then Some False
     else do {
       let inc = P4EST_QUADRANT_LEN b (sint level);
       Some ((q_x q0 + inc = q_x q1 \<and> q_y q0 = q_y q1) \<and>
             (q_x q0 = q_x q2 \<and> q_y q0 + inc = q_y q2) \<and>
             (q_x q1 = q_x q3 \<and> q_y q2 = q_y q3))
     }
   }"

definition p4est_quadrant_children ::
    "build \<Rightarrow> p4est_quadrant_t \<Rightarrow> p4est_quadrant_t \<Rightarrow> p4est_quadrant_t \<Rightarrow> p4est_quadrant_t
      \<Rightarrow> p4est_quadrant_t
      \<Rightarrow> (p4est_quadrant_t \<times> p4est_quadrant_t \<times> p4est_quadrant_t \<times> p4est_quadrant_t) option"
  where
  "p4est_quadrant_children b q c0 c1 c2 c3 = do {
     P4EST_ASSERT (p4est_quadrant_is_extended b q);
     P4EST_ASSERT (sint (q_level q) < P4EST_QMAXLEVEL b);
     let c0 = c0\<lparr>q_x := q_x q, q_y := q_y q, q_level := q_level q + 1\<rparr>;
     let c1 = c1\<lparr>q_x := q_x c0 OR P4EST_QUADRANT_LEN b (sint (q_level c0)),
                 q_y := q_y c0, q_level := q_level c0\<rparr>;
     let c2 = c2\<lparr>q_x := q_x c0,
                 q_y := q_y c0 OR P4EST_QUADRANT_LEN b (sint (q_level c0)),
                 q_level := q_level c0\<rparr>;
     let c3 = c3\<lparr>q_x := q_x c1, q_y := q_y c2, q_level := q_level c0\<rparr>;
     fam \<leftarrow> p4est_quadrant_is_family b c0 c1 c2 c3;
     P4EST_ASSERT fam;
     Some (c0, c1, c2, c3)
   }"

text \<open>
  The coordinates are signed, so \<^verbatim>\<open>>>\<close> is the arithmetic shift.
\<close>

definition p4est_quadrant_is_ancestor ::
    "build \<Rightarrow> p4est_quadrant_t \<Rightarrow> p4est_quadrant_t \<Rightarrow> bool option" where
  "p4est_quadrant_is_ancestor b q r = do {
     P4EST_ASSERT (p4est_quadrant_is_extended b q);
     P4EST_ASSERT (p4est_quadrant_is_extended b r);
     if sint (q_level q) \<ge> sint (q_level r) then Some False
     else do {
       let exclorx = signed_drop_bit (nat (P4EST_MAXLEVEL b - sint (q_level q))) (q_x q XOR q_x r);
       let exclory = signed_drop_bit (nat (P4EST_MAXLEVEL b - sint (q_level q))) (q_y q XOR q_y r);
       let exclorz = signed_drop_bit (nat (P4EST_MAXLEVEL b - sint (q_level q))) (q_z q XOR q_z r);
       Some (if P4_TO_P8 b then exclorx = 0 \<and> exclory = 0 \<and> exclorz = 0
             else exclorx = 0 \<and> exclory = 0)
     }
   }"

section \<open>Linear ids\<close>

text \<open>
  The loop \<^verbatim>\<open>for (i = 0; i < level + 2; ++i)\<close> runs over \<open>[0..<level + 2]\<close>. The
  coordinates are widened to \<^verbatim>\<open>uint64_t\<close> after the arithmetic shift, which extends
  the sign.
\<close>

definition linear_id_step ::
    "build \<Rightarrow> 64 word \<Rightarrow> 64 word \<Rightarrow> 64 word \<Rightarrow> nat \<Rightarrow> 64 word \<Rightarrow> 64 word" where
  "linear_id_step b x y z i lid =
     (let lid = lid OR push_bit ((P4EST_DIM b - 1) * i) (x AND push_bit i 1);
          lid = lid OR push_bit ((P4EST_DIM b - 1) * i + 1) (y AND push_bit i 1)
      in if P4_TO_P8 b
         then lid OR push_bit ((P4EST_DIM b - 1) * i + 2) (z AND push_bit i 1)
         else lid)"

definition p4est_quadrant_linear_id :: "build \<Rightarrow> p4est_quadrant_t \<Rightarrow> int \<Rightarrow> 64 word option" where
  "p4est_quadrant_linear_id b quadrant level = do {
     P4EST_ASSERT (p4est_quadrant_is_extended b quadrant);
     P4EST_ASSERT (sint (q_level quadrant) \<ge> level \<and> level \<ge> 0);
     let x = scast (signed_drop_bit (nat (P4EST_MAXLEVEL b - level)) (q_x quadrant));
     let y = scast (signed_drop_bit (nat (P4EST_MAXLEVEL b - level)) (q_y quadrant));
     let z = scast (signed_drop_bit (nat (P4EST_MAXLEVEL b - level)) (q_z quadrant));
     Some (fold (linear_id_step b x y z) [0..<nat (level + 2)] 0)
   }"

definition set_morton_step :: "build \<Rightarrow> 64 word \<Rightarrow> nat \<Rightarrow> p4est_quadrant_t \<Rightarrow> p4est_quadrant_t"
  where
  "set_morton_step b lid i quadrant =
     (let quadrant = quadrant\<lparr>q_x := q_x quadrant OR
            ucast (drop_bit ((P4EST_DIM b - 1) * i) (lid AND push_bit (P4EST_DIM b * i) 1))\<rparr>;
          quadrant = quadrant\<lparr>q_y := q_y quadrant OR
            ucast (drop_bit ((P4EST_DIM b - 1) * i + 1) (lid AND push_bit (P4EST_DIM b * i + 1) 1))\<rparr>
      in if P4_TO_P8 b
         then quadrant\<lparr>q_z := q_z quadrant OR
            ucast (drop_bit ((P4EST_DIM b - 1) * i + 2) (lid AND push_bit (P4EST_DIM b * i + 2) 1))\<rparr>
         else quadrant)"

definition set_morton_sign :: "build \<Rightarrow> 32 word \<Rightarrow> 32 word" where
  "set_morton_sign b c =
     (if push_bit (nat (P4EST_MAXLEVEL b + 1)) 1 \<le>s c
      then c - push_bit (nat (P4EST_MAXLEVEL b + 2)) 1 else c)"

definition p4est_quadrant_set_morton ::
    "build \<Rightarrow> p4est_quadrant_t \<Rightarrow> int \<Rightarrow> 64 word \<Rightarrow> p4est_quadrant_t option" where
  "p4est_quadrant_set_morton b quadrant level lid = do {
     P4EST_ASSERT (0 \<le> level \<and> level \<le> P4EST_QMAXLEVEL b);
     P4EST_ASSERT (level < P4EST_QMAXLEVEL b \<longrightarrow>
                   lid < push_bit (P4EST_DIM b * nat (level + 2)) 1);
     let quadrant = quadrant\<lparr>q_level := word_of_int level\<rparr>;
     let quadrant = quadrant\<lparr>q_x := 0, q_y := 0\<rparr>;
     let quadrant = (if P4_TO_P8 b then quadrant\<lparr>q_z := 0\<rparr> else quadrant);
     let quadrant = fold (set_morton_step b lid) [0..<nat (level + 2)] quadrant;
     let quadrant = quadrant\<lparr>q_x := push_bit (nat (P4EST_MAXLEVEL b - level)) (q_x quadrant)\<rparr>;
     let quadrant = quadrant\<lparr>q_y := push_bit (nat (P4EST_MAXLEVEL b - level)) (q_y quadrant)\<rparr>;
     let quadrant =
       (if P4_TO_P8 b
        then (let quadrant = quadrant\<lparr>q_z := push_bit (nat (P4EST_MAXLEVEL b - level)) (q_z quadrant)\<rparr>;
                  quadrant = quadrant\<lparr>q_x := set_morton_sign b (q_x quadrant)\<rparr>;
                  quadrant = quadrant\<lparr>q_y := set_morton_sign b (q_y quadrant)\<rparr>
              in quadrant\<lparr>q_z := set_morton_sign b (q_z quadrant)\<rparr>)
        else quadrant);
     P4EST_ASSERT (p4est_quadrant_is_extended b quadrant);
     Some quadrant
   }"

section \<open>Successor test\<close>

definition p4est_quadrant_is_next ::
    "build \<Rightarrow> p4est_quadrant_t \<Rightarrow> p4est_quadrant_t \<Rightarrow> bool option" where
  "p4est_quadrant_is_next b q r = do {
     P4EST_ASSERT (p4est_quadrant_is_extended b q);
     P4EST_ASSERT (p4est_quadrant_is_extended b r);
     let mask = P4EST_QUADRANT_LEN b (sint (q_level r)) - P4EST_QUADRANT_LEN b (sint (q_level q));
     if sint (q_level q) > sint (q_level r) \<and>
        (q_x q AND mask \<noteq> mask \<or> q_y q AND mask \<noteq> mask \<or>
         (P4_TO_P8 b \<and> q_z q AND mask \<noteq> mask))
     then Some False
     else do {
       let minlevel = (if sint (q_level q) > sint (q_level r)
                       then sint (q_level r) else sint (q_level q));
       i1 \<leftarrow> p4est_quadrant_linear_id b q minlevel;
       i2 \<leftarrow> p4est_quadrant_linear_id b r minlevel;
       Some (i1 + 1 = i2)
     }
   }"

text \<open>
  The loop of \<^verbatim>\<open>p4est_quadrant_is_next_D\<close>: \<open>Some None\<close> is its
  \<^verbatim>\<open>return false\<close>, \<open>Some (Some a)\<close> the quadrant \<open>a\<close> when the loop ends, \<open>None\<close>
  an assertion that failed.
\<close>

function is_next_D_loop ::
    "build \<Rightarrow> p4est_quadrant_t \<Rightarrow> p4est_quadrant_t \<Rightarrow> p4est_quadrant_t option option" where
  "is_next_D_loop b a bq =
     (if sint (q_level a) > sint (q_level bq)
      then do {
        cid \<leftarrow> p4est_quadrant_child_id b a;
        if cid \<noteq> P4EST_CHILDREN b - 1 then Some None
        else do {
          a' \<leftarrow> p4est_quadrant_parent b a a;
          is_next_D_loop b a' bq
        }
      }
      else Some (Some a))"
  by pat_completeness auto
termination
  by (relation "measure (\<lambda>(b, a, bq). nat (sint (q_level a) - sint (q_level bq)))")
    (auto dest: parent_level)

declare is_next_D_loop.simps [simp del]

definition p4est_quadrant_is_next_D ::
    "build \<Rightarrow> p4est_quadrant_t \<Rightarrow> p4est_quadrant_t \<Rightarrow> bool option" where
  "p4est_quadrant_is_next_D b q r = do {
     c \<leftarrow> p4est_quadrant_compare b q r;
     if c \<ge> 0 then Some False
     else do {
       res \<leftarrow> is_next_D_loop b q r;
       case res of
         None \<Rightarrow> Some False
       | Some a \<Rightarrow> do {
           i1 \<leftarrow> p4est_quadrant_linear_id b a (sint (q_level a));
           i2 \<leftarrow> p4est_quadrant_linear_id b r (sint (q_level a));
           Some (i1 + 1 = i2)
         }
     }
   }"

section \<open>Nearest common ancestor\<close>

definition p4est_nearest_common_ancestor ::
    "build \<Rightarrow> p4est_quadrant_t \<Rightarrow> p4est_quadrant_t \<Rightarrow> p4est_quadrant_t
      \<Rightarrow> p4est_quadrant_t option" where
  "p4est_nearest_common_ancestor b q1 q2 r = do {
     P4EST_ASSERT (p4est_quadrant_is_extended b q1);
     P4EST_ASSERT (p4est_quadrant_is_extended b q2);
     let exclorx = q_x q1 XOR q_x q2;
     let exclory = q_y q1 XOR q_y q2;
     let exclorz = q_z q1 XOR q_z q2;
     let maxclor = (if P4_TO_P8 b then exclorx OR exclory OR exclorz else exclorx OR exclory);
     let maxlevel = SC_LOG2_32 maxclor + 1;
     P4EST_ASSERT (maxlevel \<le> P4EST_MAXLEVEL b);
     let r = r\<lparr>q_x := q_x q1 AND NOT (push_bit (nat maxlevel) 1 - 1)\<rparr>;
     let r = r\<lparr>q_y := q_y q1 AND NOT (push_bit (nat maxlevel) 1 - 1)\<rparr>;
     let r = (if P4_TO_P8 b
              then r\<lparr>q_z := q_z q1 AND NOT (push_bit (nat maxlevel) 1 - 1)\<rparr> else r);
     let r = r\<lparr>q_level := word_of_int (min (P4EST_MAXLEVEL b - maxlevel)
                                        (min (sint (q_level q1)) (sint (q_level q2))))\<rparr>;
     P4EST_ASSERT (p4est_quadrant_is_extended b r);
     Some r
   }"

text \<open>
  The two loops of the first stage have one shape: promote \<open>s\<close> while it is deeper
  than the level \<open>l\<close> of the other quadrant.
\<close>

function nca_promote :: "build \<Rightarrow> p4est_quadrant_t \<Rightarrow> int \<Rightarrow> p4est_quadrant_t option" where
  "nca_promote b s l =
     (if sint (q_level s) > l
      then do { s' \<leftarrow> p4est_quadrant_parent b s s; nca_promote b s' l }
      else Some s)"
  by pat_completeness auto
termination
  by (relation "measure (\<lambda>(b, s, l). nat (sint (q_level s) - l))")
    (auto dest: parent_level)

declare nca_promote.simps [simp del]

function nca_climb ::
    "build \<Rightarrow> p4est_quadrant_t \<Rightarrow> p4est_quadrant_t \<Rightarrow> (p4est_quadrant_t \<times> p4est_quadrant_t) option"
  where
  "nca_climb b s1 s2 = do {
     e \<leftarrow> p4est_quadrant_is_equal b s1 s2;
     if \<not> e
     then do {
       s1' \<leftarrow> p4est_quadrant_parent b s1 s1;
       s2' \<leftarrow> p4est_quadrant_parent b s2 s2;
       nca_climb b s1' s2'
     }
     else Some (s1, s2)
   }"
  by pat_completeness auto
termination
  by (relation "measure (\<lambda>(b, s1, s2). nat (sint (q_level s1)))")
    (auto dest: parent_level)

declare nca_climb.simps [simp del]

definition p4est_nearest_common_ancestor_D ::
    "build \<Rightarrow> p4est_quadrant_t \<Rightarrow> p4est_quadrant_t \<Rightarrow> p4est_quadrant_t
      \<Rightarrow> p4est_quadrant_t option" where
  "p4est_nearest_common_ancestor_D b q1 q2 r = do {
     let s1 = q1;
     let s2 = q2;
     P4EST_ASSERT (p4est_quadrant_is_extended b q1);
     P4EST_ASSERT (p4est_quadrant_is_extended b q2);
     s1 \<leftarrow> nca_promote b s1 (sint (q_level s2));
     s2 \<leftarrow> nca_promote b s2 (sint (q_level s1));
     P4EST_ASSERT (q_level s1 = q_level s2);
     (s1, s2) \<leftarrow> nca_climb b s1 s2;
     let r = r\<lparr>q_x := q_x s1, q_y := q_y s1\<rparr>;
     let r = (if P4_TO_P8 b then r\<lparr>q_z := q_z s1\<rparr> else r);
     let r = r\<lparr>q_level := q_level s1\<rparr>;
     P4EST_ASSERT (p4est_quadrant_is_extended b r);
     Some r
   }"

section \<open>Signed 32-bit coordinates\<close>

lemma sint_of_int_32:
  assumes "- 2147483648 \<le> k" "k < 2147483648"
  shows "sint (word_of_int k :: 32 word) = k"
proof -
  have "sint (word_of_int k :: 32 word) = signed_take_bit 31 k"
    using sint_sbintrunc'[where 'a=32, of k] by simp
  also have "\<dots> = k"
    using assms by (subst signed_take_bit_int_eq_self_iff) simp
  finally show ?thesis .
qed

lemma pow2_int_bounds:
  assumes "n \<le> 30"
  shows "(2::int) ^ n \<le> 1073741824"
  using power_increasing[of n 30 "2::int"] assms by simp

lemma sint_pow2:
  assumes "n \<le> 30"
  shows "sint ((2::32 word) ^ n) = 2 ^ n"
proof -
  have a: "(2::int) ^ n \<le> 1073741824" "(0::int) \<le> 2 ^ n"
    using pow2_int_bounds[OF assms] by simp_all
  have "sint (word_of_int (2 ^ n) :: 32 word) = 2 ^ n"
    by (rule sint_of_int_32) (use a in linarith)+
  then show ?thesis by simp
qed

lemma sint_pow2_minus1:
  assumes "n \<le> 30"
  shows "sint ((2::32 word) ^ n - 1) = 2 ^ n - 1"
proof -
  have a: "(2::int) ^ n \<le> 1073741824" "(0::int) \<le> 2 ^ n"
    using pow2_int_bounds[OF assms] by simp_all
  have "sint (word_of_int (2 ^ n - 1) :: 32 word) = 2 ^ n - 1"
    by (rule sint_of_int_32) (use a in linarith)+
  then show ?thesis by simp
qed

lemma sint_neg_pow2:
  assumes "n \<le> 30"
  shows "sint (- ((2::32 word) ^ n)) = - (2 ^ n)"
proof -
  have a: "(2::int) ^ n \<le> 1073741824" "(0::int) \<le> 2 ^ n"
    using pow2_int_bounds[OF assms] by simp_all
  have "sint (word_of_int (- (2 ^ n)) :: 32 word) = - (2 ^ n)"
    by (rule sint_of_int_32) (use a in linarith)+
  then show ?thesis by simp
qed

lemma sint_two_pow2_minus1:
  assumes "n \<le> 30"
  shows "sint ((2::32 word) ^ n + (2 ^ n - 1)) = 2 * 2 ^ n - 1"
proof -
  have a: "(2::int) ^ n \<le> 1073741824" "(0::int) \<le> 2 ^ n"
    using pow2_int_bounds[OF assms] by simp_all
  have "sint (word_of_int (2 ^ n + (2 ^ n - 1)) :: 32 word) = 2 ^ n + (2 ^ n - 1)"
    by (rule sint_of_int_32) (use a in linarith)+
  then show ?thesis by simp
qed

lemma sint_neg_iff_bit31: "sint (c::32 word) < 0 \<longleftrightarrow> bit c 31"
  using bit_last_iff[of c] by simp

lemma sint_range_bits:
  assumes "n < 32"
  shows "(- (2 ^ n) \<le> sint (c::32 word) \<and> sint c < 2 ^ n) \<longleftrightarrow>
         (\<forall>i. n \<le> i \<and> i < 32 \<longrightarrow> bit c i = bit c n)"
proof -
  have "(- (2 ^ n) \<le> sint c \<and> sint c < 2 ^ n) \<longleftrightarrow> signed_take_bit n (sint c) = sint c"
    by (simp add: signed_take_bit_int_eq_self_iff)
  also have "\<dots> \<longleftrightarrow> (\<forall>i. bit (signed_take_bit n (sint c)) i = bit (sint c) i)"
    by (simp add: bit_eq_iff)
  also have "\<dots> \<longleftrightarrow> (\<forall>i. n \<le> i \<and> i < 32 \<longrightarrow> bit c i = bit c n)"
  proof
    assume h: "\<forall>i. bit (signed_take_bit n (sint c)) i = bit (sint c) i"
    show "\<forall>i. n \<le> i \<and> i < 32 \<longrightarrow> bit c i = bit c n"
    proof (intro allI impI)
      fix i assume "n \<le> i \<and> i < 32"
      with h[rule_format, of i] assms show "bit c i = bit c n"
        by (simp add: bit_signed_take_bit_iff bit_sint_iff min_def)
    qed
  next
    assume h: "\<forall>i. n \<le> i \<and> i < 32 \<longrightarrow> bit c i = bit c n"
    show "\<forall>i. bit (signed_take_bit n (sint c)) i = bit (sint c) i"
    proof
      fix i
      show "bit (signed_take_bit n (sint c)) i = bit (sint c) i"
      proof (cases "i < 32")
        case True
        with h[rule_format, of i] assms show ?thesis
          by (auto simp add: bit_signed_take_bit_iff bit_sint_iff min_def)
      next
        case False
        with h[rule_format, of 31] assms show ?thesis
          by (auto simp add: bit_signed_take_bit_iff bit_sint_iff min_def dest: bit_imp_le_length)
      qed
    qed
  qed
  finally show ?thesis .
qed

definition in_3x3 :: "nat \<Rightarrow> 32 word \<Rightarrow> bool" where
  "in_3x3 M c \<longleftrightarrow> (\<forall>n. M < n \<and> n < 31 \<longrightarrow> bit c n = bit c 31) \<and> (bit c 31 \<longrightarrow> bit c M)"

lemma in_3x3_high:
  assumes "in_3x3 M c" "M < n" "n < 32"
  shows "bit c n = bit c 31"
proof (cases "n = 31")
  case False
  with assms have "M < n \<and> n < 31" by simp
  with assms(1) show ?thesis unfolding in_3x3_def by blast
qed simp

lemma in_3x3_sint:
  assumes "M \<le> 30"
  shows "in_3x3 M c \<longleftrightarrow> - (2 ^ M) \<le> sint c \<and> sint c < 2 ^ (M + 1)"
proof (cases "bit c 31")
  case True
  then have neg: "sint c < 0" by (simp add: sint_neg_iff_bit31)
  have "(0::int) < 2 ^ M" "(0::int) < 2 ^ (M + 1)" by simp_all
  with neg have "(- (2 ^ M) \<le> sint c \<and> sint c < 2 ^ (M + 1)) \<longleftrightarrow>
      (- (2 ^ M) \<le> sint c \<and> sint c < 2 ^ M)" by linarith
  also have "\<dots> \<longleftrightarrow> (\<forall>i. M \<le> i \<and> i < 32 \<longrightarrow> bit c i = bit c M)"
    using assms by (intro sint_range_bits) simp
  also have "\<dots> \<longleftrightarrow> in_3x3 M c"
  proof
    assume h: "\<forall>i. M \<le> i \<and> i < 32 \<longrightarrow> bit c i = bit c M"
    from h[rule_format, of 31] assms True have m: "bit c M" by simp
    show "in_3x3 M c" unfolding in_3x3_def
    proof (intro conjI allI impI)
      fix n assume "M < n \<and> n < 31"
      with h[rule_format, of n] m True show "bit c n = bit c 31" by simp
    qed (rule m)
  next
    assume h: "in_3x3 M c"
    show "\<forall>i. M \<le> i \<and> i < 32 \<longrightarrow> bit c i = bit c M"
    proof (intro allI impI)
      fix i assume i: "M \<le> i \<and> i < 32"
      from h True have m: "bit c M" unfolding in_3x3_def by blast
      show "bit c i = bit c M"
      proof (cases "i = M")
        case False
        with i have "M < i" "i < 32" by simp_all
        from in_3x3_high[OF h this] True m show ?thesis by simp
      qed simp
    qed
  qed
  finally show ?thesis by simp
next
  case False
  then have nonneg: "0 \<le> sint c" using sint_neg_iff_bit31[of c] by simp
  have "- (2 ^ M) \<le> (0::int)" "- (2 ^ (M + 1)) \<le> (0::int)" by simp_all
  with nonneg have "(- (2 ^ M) \<le> sint c \<and> sint c < 2 ^ (M + 1)) \<longleftrightarrow>
      (- (2 ^ (M + 1)) \<le> sint c \<and> sint c < 2 ^ (M + 1))" by linarith
  also have "\<dots> \<longleftrightarrow> (\<forall>i. M + 1 \<le> i \<and> i < 32 \<longrightarrow> bit c i = bit c (M + 1))"
    using assms by (intro sint_range_bits) simp
  also have "\<dots> \<longleftrightarrow> in_3x3 M c"
  proof
    assume h: "\<forall>i. M + 1 \<le> i \<and> i < 32 \<longrightarrow> bit c i = bit c (M + 1)"
    from h[rule_format, of 31] assms False have m: "\<not> bit c (M + 1)" by simp
    show "in_3x3 M c" unfolding in_3x3_def
    proof (intro conjI allI impI)
      fix n assume "M < n \<and> n < 31"
      with h[rule_format, of n] m False show "bit c n = bit c 31" by simp
    next
      assume "bit c 31" with False show "bit c M" by simp
    qed
  next
    assume h: "in_3x3 M c"
    show "\<forall>i. M + 1 \<le> i \<and> i < 32 \<longrightarrow> bit c i = bit c (M + 1)"
    proof (intro allI impI)
      fix i assume i: "M + 1 \<le> i \<and> i < 32"
      then have "M < i" "i < 32" by simp_all
      from in_3x3_high[OF h this] False have 1: "\<not> bit c i" by simp
      from assms have "M < M + 1" "M + 1 < 32" by simp_all
      from in_3x3_high[OF h this] False have 2: "\<not> bit c (M + 1)" by simp
      from 1 2 show "bit c i = bit c (M + 1)" by simp
    qed
  qed
  finally show ?thesis by simp
qed

lemma in_3x3_word:
  assumes "M \<le> 30"
  shows "(- ((2::32 word) ^ M) \<le>s c \<and> c \<le>s 2 ^ M + (2 ^ M - 1)) \<longleftrightarrow> in_3x3 M c"
proof -
  have "sint c \<le> 2 * 2 ^ M - 1 \<longleftrightarrow> sint c < 2 ^ (M + 1)" by simp
  then show ?thesis
    unfolding word_sle_eq sint_neg_pow2[OF assms] sint_two_pow2_minus1[OF assms]
      in_3x3_sint[OF assms] by simp
qed


section \<open>Constants\<close>

definition maxl :: "build \<Rightarrow> nat" where
  "maxl b = nat (P4EST_MAXLEVEL b)"

lemma wf_buildD:
  assumes "wf_build b"
  shows "1 \<le> maxl b" "maxl b \<le> 30" "P4EST_MAXLEVEL b = int (maxl b)"
    "P4EST_DIM b * (maxl b + 2) \<le> 64"
proof -
  from assms have m: "1 \<le> P4EST_MAXLEVEL b" "P4EST_MAXLEVEL b \<le> 30"
    and d: "int (P4EST_DIM b) * (P4EST_MAXLEVEL b + 2) \<le> 64"
    unfolding wf_build_def by simp_all
  from m show 1: "1 \<le> maxl b" and 2: "maxl b \<le> 30" and 3: "P4EST_MAXLEVEL b = int (maxl b)"
    unfolding maxl_def by simp_all
  from d have "int (P4EST_DIM b * (maxl b + 2)) \<le> int 64"
    unfolding 3 by (simp add: algebra_simps)
  then show "P4EST_DIM b * (maxl b + 2) \<le> 64"
    by (simp only: of_nat_le_iff)
qed

lemma root_len_eq: "P4EST_ROOT_LEN b = 2 ^ maxl b"
  by (simp add: P4EST_ROOT_LEN_def maxl_def)

lemma P4EST_ASSERT_simps [simp]:
  "P4EST_ASSERT True = Some ()" "P4EST_ASSERT False = None"
  by (simp_all add: P4EST_ASSERT_def)

lemma P4EST_ASSERT_bind [simp]:
  "(P4EST_ASSERT c \<bind> f) = (if c then f () else None)"
  by (simp add: P4EST_ASSERT_def)

lemma root_len_minus1_odd:
  assumes "1 \<le> M" "M \<le> 30"
  shows "((2::32 word) ^ M - 1) AND 1 = 1"
proof -
  have "bit (mask M :: 32 word) 0"
    using assms by (simp add: bit_mask_iff)
  then have "bit ((2::32 word) ^ M - 1) 0"
    by (simp only: mask_eq_exp_minus_1)
  then show ?thesis by (simp add: and_one_eq bit_0 mod_2_eq_odd)
qed

lemma node_coord_ok_False:
  assumes "wf_build b"
  shows "node_coord_ok b False c \<longleftrightarrow> c AND 1 = 0"
  by (simp add: node_coord_ok_def P4EST_QMAXLEVEL_def)

text \<open>Two concrete builds, used to evaluate the model.\<close>

definition build_2d :: build where
  "build_2d = \<lparr>P4_TO_P8 = False, P4EST_MAXLEVEL = 30\<rparr>"

definition build_3d :: build where
  "build_3d = \<lparr>P4_TO_P8 = True, P4EST_MAXLEVEL = 19\<rparr>"

lemma wf_build_2d: "wf_build build_2d"
  by (simp add: wf_build_def build_2d_def P4EST_DIM_def)

lemma wf_build_3d: "wf_build build_3d"
  by (simp add: wf_build_def build_3d_def P4EST_DIM_def)


section \<open>Extended quadrants, bit by bit\<close>

definition lev :: "p4est_quadrant_t \<Rightarrow> nat" where
  "lev q = nat (sint (q_level q))"

definition ext_coord :: "nat \<Rightarrow> nat \<Rightarrow> 32 word \<Rightarrow> bool" where
  "ext_coord M k c \<longleftrightarrow> take_bit k c = 0 \<and> in_3x3 M c"

lemma quadrant_len_eq:
  assumes "wf_build b" "0 \<le> l"
  shows "P4EST_QUADRANT_LEN b l = 2 ^ (maxl b - nat l)"
proof -
  have "nat (P4EST_MAXLEVEL b - l) = maxl b - nat l"
    using assms(2) wf_buildD(3)[OF assms(1)] by simp
  then show ?thesis by (simp add: P4EST_QUADRANT_LEN_def)
qed

lemma and_pow2_minus1_eq_0: "c AND (2 ^ k - 1) = 0 \<longleftrightarrow> take_bit k c = 0"
  for c :: "32 word"
  by (simp add: take_bit_eq_mask mask_eq_exp_minus_1)

lemma take_bit_eq_0_bits: "take_bit k c = 0 \<longleftrightarrow> (\<forall>n<k. \<not> bit c n)"
  for c :: "32 word"
proof
  assume "take_bit k c = 0"
  then have "\<And>n. \<not> bit (take_bit k c) n" by simp
  then show "\<forall>n<k. \<not> bit c n" by (simp add: bit_take_bit_iff)
next
  assume "\<forall>n<k. \<not> bit c n"
  then show "take_bit k c = 0"
    by (intro bit_word_eqI) (simp add: bit_take_bit_iff)
qed

lemma is_extended_iff:
  assumes wf: "wf_build b"
  shows "p4est_quadrant_is_extended b q \<longleftrightarrow>
    0 \<le> sint (q_level q) \<and> lev q < maxl b \<and>
    ext_coord (maxl b) (maxl b - lev q) (q_x q) \<and>
    ext_coord (maxl b) (maxl b - lev q) (q_y q) \<and>
    (P4_TO_P8 b \<longrightarrow> ext_coord (maxl b) (maxl b - lev q) (q_z q))"
proof (cases "0 \<le> sint (q_level q)")
  case True
  note M = wf_buildD[OF wf]
  have len: "P4EST_QUADRANT_LEN b (sint (q_level q)) = 2 ^ (maxl b - lev q)"
    using quadrant_len_eq[OF wf True] by (simp add: lev_def)
  have l: "sint (q_level q) \<le> P4EST_QMAXLEVEL b \<longleftrightarrow> lev q < maxl b"
    using True M(1,3) by (auto simp: P4EST_QMAXLEVEL_def lev_def)
  show ?thesis
    unfolding p4est_quadrant_is_extended_def p4est_quadrant_is_inside_3x3_def len
      root_len_eq and_pow2_minus1_eq_0 in_3x3_word[OF M(2)] ext_coord_def
    using True l by blast
next
  case False
  then show ?thesis by (simp add: p4est_quadrant_is_extended_def)
qed

lemma bit_and_not_pow2:
  "bit (c AND NOT (2 ^ k)) n \<longleftrightarrow> bit c n \<and> n \<noteq> k" for c :: "32 word"
  by (auto simp add: bit_simps dest: bit_imp_le_length)

lemma ext_coord_clear:
  assumes "k < M" "ext_coord M k c"
  shows "ext_coord M (Suc k) (c AND NOT (2 ^ k))"
proof -
  from assms(2) have z: "\<forall>n<k. \<not> bit c n" and i: "in_3x3 M c"
    by (simp_all add: ext_coord_def take_bit_eq_0_bits)
  have "\<forall>n<Suc k. \<not> bit (c AND NOT (2 ^ k)) n"
    using z by (auto simp: bit_and_not_pow2 less_Suc_eq)
  moreover have "in_3x3 M (c AND NOT (2 ^ k))"
    using i assms(1) unfolding in_3x3_def bit_and_not_pow2 by auto
  ultimately show ?thesis unfolding ext_coord_def take_bit_eq_0_bits by blast
qed

section \<open>Parent\<close>

definition parent_res :: "build \<Rightarrow> p4est_quadrant_t \<Rightarrow> p4est_quadrant_t \<Rightarrow> p4est_quadrant_t" where
  "parent_res b q r =
     (let r = r\<lparr>q_x := q_x q AND NOT (P4EST_QUADRANT_LEN b (sint (q_level q)))\<rparr>;
          r = r\<lparr>q_y := q_y q AND NOT (P4EST_QUADRANT_LEN b (sint (q_level q)))\<rparr>;
          r = (if P4_TO_P8 b
              then r\<lparr>q_z := q_z q AND NOT (P4EST_QUADRANT_LEN b (sint (q_level q)))\<rparr>
              else r)
      in r\<lparr>q_level := q_level q - 1\<rparr>)"

lemma if_if_if_None:
  "(if a then (if c then (if d then x else None) else None) else None) =
   (if a \<and> c \<and> d then x else None)"
  by simp

lemma parent_unfold:
  "p4est_quadrant_parent b q r =
     (if p4est_quadrant_is_extended b q \<and> 0 < sint (q_level q) \<and>
         p4est_quadrant_is_extended b (parent_res b q r)
      then Some (parent_res b q r) else None)"
  unfolding p4est_quadrant_parent_def parent_res_def Let_def P4EST_ASSERT_bind
  by (rule if_if_if_None)

lemma parent_res_sel:
  "q_x (parent_res b q r) = q_x q AND NOT (P4EST_QUADRANT_LEN b (sint (q_level q)))"
  "q_y (parent_res b q r) = q_y q AND NOT (P4EST_QUADRANT_LEN b (sint (q_level q)))"
  "P4_TO_P8 b \<Longrightarrow> q_z (parent_res b q r) = q_z q AND NOT (P4EST_QUADRANT_LEN b (sint (q_level q)))"
  "\<not> P4_TO_P8 b \<Longrightarrow> q_z (parent_res b q r) = q_z r"
  "q_level (parent_res b q r) = q_level q - 1"
  by (simp_all add: parent_res_def Let_def)

lemma parent_res_extended:
  assumes wf: "wf_build b" and e: "p4est_quadrant_is_extended b q" and l: "0 < sint (q_level q)"
  shows "p4est_quadrant_is_extended b (parent_res b q r)"
    and "lev (parent_res b q r) = lev q - 1"
proof -
  note M = wf_buildD[OF wf]
  from e have lq: "lev q < maxl b"
    and c: "ext_coord (maxl b) (maxl b - lev q) (q_x q)"
      "ext_coord (maxl b) (maxl b - lev q) (q_y q)"
      "P4_TO_P8 b \<Longrightarrow> ext_coord (maxl b) (maxl b - lev q) (q_z q)"
    unfolding is_extended_iff[OF wf] by simp_all
  have len: "P4EST_QUADRANT_LEN b (sint (q_level q)) = 2 ^ (maxl b - lev q)"
    using quadrant_len_eq[OF wf, of "sint (q_level q)"] l by (simp add: lev_def)
  have sl: "sint (q_level q - 1) = sint (q_level q) - 1"
    using l by (rule sint_level_pred)
  then show lv: "lev (parent_res b q r) = lev q - 1"
    using l by (simp add: lev_def parent_res_sel nat_diff_distrib)
  have pos: "0 < lev q" using l by (simp add: lev_def)
  have k: "maxl b - lev q < maxl b" "Suc (maxl b - lev q) = maxl b - (lev q - 1)"
    using pos lq by simp_all
  show "p4est_quadrant_is_extended b (parent_res b q r)"
    unfolding is_extended_iff[OF wf] lv
    using ext_coord_clear[OF k(1) c(1)] ext_coord_clear[OF k(1) c(2)]
      ext_coord_clear[OF k(1) c(3)] sl l lq
    by (simp add: parent_res_sel len k(2))
qed

lemma parent_Some:
  assumes "wf_build b" "p4est_quadrant_is_extended b q" "0 < sint (q_level q)"
  shows "p4est_quadrant_parent b q r = Some (parent_res b q r)"
  using assms parent_res_extended(1)[OF assms] by (simp add: parent_unfold)

lemma extended_2d_half:
  "p4est_quadrant_is_extended build_2d \<lparr>q_x = 536870912, q_y = 0, q_z = 0, q_level = 1\<rparr>"
  by (simp add: p4est_quadrant_is_extended_def p4est_quadrant_is_inside_3x3_def
      P4EST_QMAXLEVEL_def P4EST_QUADRANT_LEN_def P4EST_ROOT_LEN_def build_2d_def word_sle_eq)

lemma extended_2d_root:
  "p4est_quadrant_is_extended build_2d \<lparr>q_x = 0, q_y = 0, q_z = 0, q_level = 0\<rparr>"
  by (simp add: p4est_quadrant_is_extended_def p4est_quadrant_is_inside_3x3_def
      P4EST_QMAXLEVEL_def P4EST_QUADRANT_LEN_def P4EST_ROOT_LEN_def build_2d_def word_sle_eq)


lemma sint_level_succ:
  fixes l :: "8 word"
  assumes "0 \<le> sint l" "sint l < 126"
  shows "sint (l + 1) = sint l + 1"
proof -
  have "sint (l + 1) = signed_take_bit 7 (sint l + 1)"
    by (simp add: sint_word_ariths)
  also have "\<dots> = sint l + 1"
    using assms by (subst signed_take_bit_int_eq_self_iff) simp
  finally show ?thesis .
qed

lemma extended_levelD:
  assumes "wf_build b" "p4est_quadrant_is_extended b q"
  shows "0 \<le> sint (q_level q)" "sint (q_level q) < P4EST_MAXLEVEL b" "sint (q_level q) < 30"
    "int (lev q) = sint (q_level q)" "lev q < maxl b"
proof -
  show 1: "0 \<le> sint (q_level q)" and 2: "sint (q_level q) < P4EST_MAXLEVEL b"
    using assms(2) by (simp_all add: p4est_quadrant_is_extended_def P4EST_QMAXLEVEL_def)
  from 2 show "sint (q_level q) < 30" using wf_buildD(2,3)[OF assms(1)] by simp
  from 1 show "int (lev q) = sint (q_level q)" by (simp add: lev_def)
  from assms(2) show "lev q < maxl b" unfolding is_extended_iff[OF assms(1)] by simp
qed

lemma ext_coord_coarsen:
  assumes "ext_coord M k c" "\<not> bit c k"
  shows "ext_coord M (Suc k) c"
proof -
  from assms have "\<forall>n<Suc k. \<not> bit c n"
    by (auto simp: ext_coord_def take_bit_eq_0_bits less_Suc_eq)
  with assms(1) show ?thesis
    unfolding ext_coord_def take_bit_eq_0_bits by blast
qed

lemma ext_coord_low_bit:
  assumes "ext_coord M k c" "n < k"
  shows "\<not> bit c n"
  using assms unfolding ext_coord_def take_bit_eq_0_bits by blast

lemma not_p8_build_2d: "\<not> P4_TO_P8 build_2d"
  by (simp add: build_2d_def)

lemmas extended_eval =
  p4est_quadrant_is_extended_def p4est_quadrant_is_inside_3x3_def P4EST_QMAXLEVEL_def
  P4EST_QUADRANT_LEN_def P4EST_ROOT_LEN_def word_sle_eq

lemma sint_level_of_int:
  assumes "0 \<le> k" "k \<le> 30"
  shows "sint (word_of_int k :: 8 word) = k"
proof -
  have "sint (word_of_int k :: 8 word) = signed_take_bit 7 k"
    using sint_sbintrunc'[where 'a=8, of k] by simp
  also have "\<dots> = k"
    using assms by (subst signed_take_bit_int_eq_self_iff) simp
  finally show ?thesis .
qed

section \<open>The most significant set bit\<close>

lemma nat_less_pow2_iff_bits: "x < 2 ^ p \<longleftrightarrow> (\<forall>n\<ge>p. \<not> bit x n)" for x :: nat
proof
  assume x: "x < 2 ^ p"
  show "\<forall>n\<ge>p. \<not> bit x n"
  proof (intro allI impI)
    fix n assume "p \<le> n"
    then have "(2::nat) ^ p \<le> 2 ^ n" by (simp add: power_increasing)
    with x have "x < 2 ^ n" by (rule less_le_trans)
    then have "x div 2 ^ n = 0" by (rule div_less)
    then show "\<not> bit x n" by (simp add: bit_iff_odd)
  qed
next
  assume h: "\<forall>n\<ge>p. \<not> bit x n"
  have "take_bit p x = x"
    by (rule bit_eqI) (use h in \<open>auto simp add: bit_take_bit_iff not_le\<close>)
  then show "x < 2 ^ p" by (simp add: take_bit_nat_eq_self_iff)
qed

lemma log2_less_iff: "SC_LOG2_32 w < int p \<longleftrightarrow> (\<forall>n\<ge>p. \<not> bit w n)"
proof -
  have "SC_LOG2_32 w < int p \<longleftrightarrow> floorlog 2 (unat w) \<le> p"
    by (auto simp add: SC_LOG2_32_def)
  also have "\<dots> \<longleftrightarrow> unat w < 2 ^ p"
    by (simp add: floorlog_le_iff)
  also have "\<dots> \<longleftrightarrow> (\<forall>n\<ge>p. \<not> bit (unat w) n)"
    by (rule nat_less_pow2_iff_bits)
  also have "\<dots> \<longleftrightarrow> (\<forall>n\<ge>p. \<not> bit w n)"
    by (simp add: bit_unsigned_iff)
  finally show ?thesis .
qed

lemma log2_ge_minus1: "- 1 \<le> SC_LOG2_32 w"
  by (simp add: SC_LOG2_32_def)

lemma log2_less_32: "SC_LOG2_32 w < 32"
  using log2_less_iff[of w 32] by (auto dest: bit_imp_le_length)

definition top_bit :: "32 word \<Rightarrow> nat \<Rightarrow> bool" where
  "top_bit w n \<longleftrightarrow> bit w n \<and> (\<forall>m>n. \<not> bit w m)"

lemma log2_top_bit:
  assumes "top_bit w n"
  shows "SC_LOG2_32 w = int n"
proof -
  from assms have "\<forall>m\<ge>Suc n. \<not> bit w m" by (simp add: top_bit_def Suc_le_eq)
  then have "SC_LOG2_32 w < int (Suc n)" by (simp only: log2_less_iff)
  moreover from assms have "\<not> (\<forall>m\<ge>n. \<not> bit w m)" by (auto simp: top_bit_def)
  then have "\<not> SC_LOG2_32 w < int n" unfolding log2_less_iff .
  ultimately show ?thesis by simp
qed

lemma log2_zero: "SC_LOG2_32 0 = - 1"
  using log2_less_iff[of 0 0] log2_ge_minus1[of 0] by simp

lemma top_bit_log2:
  assumes "w \<noteq> 0"
  shows "0 \<le> SC_LOG2_32 w" "top_bit w (nat (SC_LOG2_32 w))"
proof -
  from assms have "\<exists>n. bit w n" by (auto simp: bit_eq_iff)
  then have "\<not> SC_LOG2_32 w < int 0" unfolding log2_less_iff by simp
  then show nn: "0 \<le> SC_LOG2_32 w" by simp
  define n where "n = nat (SC_LOG2_32 w)"
  have n: "SC_LOG2_32 w = int n" using nn by (simp add: n_def)
  have "SC_LOG2_32 w < int (Suc n)" using n by simp
  then have hi: "\<forall>m\<ge>Suc n. \<not> bit w m" by (simp only: log2_less_iff)
  have "\<not> SC_LOG2_32 w < int n" using n by simp
  then obtain m where m: "n \<le> m" "bit w m" unfolding log2_less_iff by blast
  with hi have "m = n" by (metis not_less_eq_eq order_le_imp_less_or_eq Suc_leI)
  with m hi show "top_bit w (nat (SC_LOG2_32 w))"
    unfolding n_def[symmetric] top_bit_def by (auto simp: Suc_le_eq)
qed

lemma xor_eq_0_iff_eq: "a XOR c = 0 \<longleftrightarrow> a = c" for a c :: "32 word"
  by (auto simp add: bit_eq_iff bit_xor_iff)


section \<open>The comparison operands\<close>

definition shifted_coord :: "build \<Rightarrow> 32 word \<Rightarrow> int" where
  "shifted_coord b c = (if sint c < 0 then sint c + 2 ^ nat (P4EST_MAXLEVEL b + 2) else sint c)"

lemma sint_of_int_64:
  assumes "- 9223372036854775808 \<le> k" "k < 9223372036854775808"
  shows "sint (word_of_int k :: 64 word) = k"
proof -
  have "sint (word_of_int k :: 64 word) = signed_take_bit 63 k"
    using sint_sbintrunc'[where 'a=64, of k] by simp
  also have "\<dots> = k"
    using assms by (subst signed_take_bit_int_eq_self_iff) simp
  finally show ?thesis .
qed

lemma sint_32_bounds: "- 2147483648 \<le> sint c" "sint c < 2147483648" for c :: "32 word"
  using sint_ge[of c] sint_lt[of c] by simp_all

lemma shifted_coord_bounds:
  assumes "wf_build b"
  shows "- 2147483648 \<le> shifted_coord b c" "shifted_coord b c < 8589934592"
proof -
  have "nat (P4EST_MAXLEVEL b + 2) \<le> 32"
    using wf_buildD[OF assms] by simp
  then have "(2::int) ^ nat (P4EST_MAXLEVEL b + 2) \<le> 2 ^ 32"
    by (intro power_increasing) simp_all
  then have p: "(2::int) ^ nat (P4EST_MAXLEVEL b + 2) \<le> 4294967296" by simp
  have p0: "(0::int) \<le> 2 ^ nat (P4EST_MAXLEVEL b + 2)" by simp
  note sb = sint_32_bounds[of c]
  show "- 2147483648 \<le> shifted_coord b c"
  proof (cases "sint c < 0")
    case True
    then have "shifted_coord b c = sint c + 2 ^ nat (P4EST_MAXLEVEL b + 2)"
      by (simp add: shifted_coord_def)
    with sb p0 show ?thesis by linarith
  next
    case False
    then show ?thesis using sb by (simp add: shifted_coord_def)
  qed
  show "shifted_coord b c < 8589934592"
  proof (cases "sint c < 0")
    case True
    then have "shifted_coord b c = sint c + 2 ^ nat (P4EST_MAXLEVEL b + 2)"
      by (simp add: shifted_coord_def)
    with True p show ?thesis by linarith
  next
    case False
    then show ?thesis using sb by (simp add: shifted_coord_def)
  qed
qed

lemma compare_operand_eq: "compare_operand b c = word_of_int (shifted_coord b c)"
proof -
  have 1: "(scast c :: 64 word) = word_of_int (sint c)" by simp
  have 2: "(push_bit (nat (P4EST_MAXLEVEL b + 2)) 1 :: 64 word)
      = word_of_int (2 ^ nat (P4EST_MAXLEVEL b + 2))"
    by (simp add: push_bit_eq_mult)
  show ?thesis
    unfolding compare_operand_def shifted_coord_def 1 2 word_sle_eq
    by (simp add: not_le)
qed

lemma sint_compare_operand:
  assumes "wf_build b"
  shows "sint (compare_operand b c) = shifted_coord b c"
  unfolding compare_operand_eq
  using shifted_coord_bounds[OF assms, of c] by (intro sint_of_int_64) simp_all

definition compare_sign :: "64 word \<Rightarrow> 64 word \<Rightarrow> int" where
  "compare_sign p1 p2 =
     (let diff = p1 - p2 in if diff = 0 then 0 else if diff <s 0 then - 1 else 1)"

lemma compare_sign_operands:
  assumes "wf_build b"
  shows "compare_sign (compare_operand b c1) (compare_operand b c2)
    = sgn (shifted_coord b c1 - shifted_coord b c2)"
proof -
  let ?d = "shifted_coord b c1 - shifted_coord b c2"
  have d: "compare_operand b c1 - compare_operand b c2 = word_of_int ?d"
    unfolding compare_operand_eq by simp
  have s: "sint (word_of_int ?d :: 64 word) = ?d"
    using shifted_coord_bounds[OF assms, of c1] shifted_coord_bounds[OF assms, of c2]
    by (intro sint_of_int_64) simp_all
  have z: "(word_of_int ?d :: 64 word) = 0 \<longleftrightarrow> ?d = 0"
    using s signed_eq_0_iff[where 'a=int, of "word_of_int ?d :: 64 word"] by simp
  show ?thesis
    unfolding compare_sign_def Let_def d z word_sless_alt s
    by (simp add: sgn_if)
qed


section \<open>The deciding axis\<close>

datatype axis = X_axis | Y_axis | Z_axis

fun coord :: "axis \<Rightarrow> p4est_quadrant_t \<Rightarrow> 32 word" where
  "coord X_axis q = q_x q"
| "coord Y_axis q = q_y q"
| "coord Z_axis q = q_z q"

definition axes :: "build \<Rightarrow> axis set" where
  "axes b = (if P4_TO_P8 b then {X_axis, Y_axis, Z_axis} else {X_axis, Y_axis})"

fun axis_rank :: "axis \<Rightarrow> nat" where
  "axis_rank X_axis = 0"
| "axis_rank Y_axis = 1"
| "axis_rank Z_axis = 2"

definition log2_diff :: "p4est_quadrant_t \<Rightarrow> p4est_quadrant_t \<Rightarrow> axis \<Rightarrow> int" where
  "log2_diff q1 q2 ax = SC_LOG2_32 (coord ax q1 XOR coord ax q2)"

definition compare_axis :: "build \<Rightarrow> p4est_quadrant_t \<Rightarrow> p4est_quadrant_t \<Rightarrow> axis" where
  "compare_axis b q1 q2 =
     (if P4_TO_P8 b \<and> log2_diff q1 q2 Z_axis \<ge> log2_diff q1 q2 X_axis \<and>
         log2_diff q1 q2 Z_axis \<ge> log2_diff q1 q2 Y_axis then Z_axis
      else if log2_diff q1 q2 Y_axis \<ge> log2_diff q1 q2 X_axis then Y_axis else X_axis)"

definition comparable :: "build \<Rightarrow> p4est_quadrant_t \<Rightarrow> bool" where
  "comparable b q \<longleftrightarrow> p4est_quadrant_is_node b q True \<or> p4est_quadrant_is_extended b q"

definition same_coords :: "build \<Rightarrow> p4est_quadrant_t \<Rightarrow> p4est_quadrant_t \<Rightarrow> bool" where
  "same_coords b q1 q2 \<longleftrightarrow> (\<forall>ax\<in>axes b. coord ax q1 = coord ax q2)"

lemma same_coords_iff:
  "same_coords b q1 q2 \<longleftrightarrow>
     q_x q1 = q_x q2 \<and> q_y q1 = q_y q2 \<and> (P4_TO_P8 b \<longrightarrow> q_z q1 = q_z q2)"
  by (auto simp: same_coords_def axes_def)

lemma compare_unfold:
  "p4est_quadrant_compare b q1 q2 =
     (if comparable b q1 \<and> comparable b q2
      then Some (if same_coords b q1 q2 then sint (q_level q1) - sint (q_level q2)
                 else compare_sign (compare_operand b (coord (compare_axis b q1 q2) q1))
                        (compare_operand b (coord (compare_axis b q1 q2) q2)))
      else None)"
proof (cases "comparable b q1 \<and> comparable b q2")
  case False
  then show ?thesis
    by (auto simp add: p4est_quadrant_compare_def comparable_def)
next
  case True
  show ?thesis
  proof (cases "same_coords b q1 q2")
    case sc: True
    with True show ?thesis
      unfolding same_coords_iff
      by (simp add: p4est_quadrant_compare_def comparable_def xor_eq_0_iff_eq Let_def)
  next
    case sc: False
    have "p4est_quadrant_compare b q1 q2 =
      Some (case (if P4_TO_P8 b \<and> log2_diff q1 q2 Z_axis \<ge> log2_diff q1 q2 X_axis \<and>
              log2_diff q1 q2 Z_axis \<ge> log2_diff q1 q2 Y_axis
            then (compare_operand b (q_z q1), compare_operand b (q_z q2))
            else if log2_diff q1 q2 Y_axis \<ge> log2_diff q1 q2 X_axis
            then (compare_operand b (q_y q1), compare_operand b (q_y q2))
            else (compare_operand b (q_x q1), compare_operand b (q_x q2))) of
          (p1, p2) \<Rightarrow> compare_sign p1 p2)"
      using True sc unfolding same_coords_iff
      by (simp add: p4est_quadrant_compare_def comparable_def xor_eq_0_iff_eq Let_def
          log2_diff_def compare_sign_def cong: if_cong) blast
    also have "\<dots> = Some (compare_sign (compare_operand b (coord (compare_axis b q1 q2) q1))
                        (compare_operand b (coord (compare_axis b q1 q2) q2)))"
      by (simp add: compare_axis_def)
    finally show ?thesis using True sc by simp
  qed
qed


definition highest_differing_bit :: "32 word \<Rightarrow> 32 word \<Rightarrow> nat \<Rightarrow> bool" where
  "highest_differing_bit a c n \<longleftrightarrow> bit a n \<noteq> bit c n \<and> (\<forall>m>n. bit a m = bit c m)"

definition decides :: "build \<Rightarrow> p4est_quadrant_t \<Rightarrow> p4est_quadrant_t \<Rightarrow> axis \<Rightarrow> bool" where
  "decides b q1 q2 ax \<longleftrightarrow> ax \<in> axes b \<and>
     (\<exists>n. highest_differing_bit (coord ax q1) (coord ax q2) n \<and>
       (\<forall>ax'\<in>axes b. ax' \<noteq> ax \<longrightarrow>
          coord ax' q1 = coord ax' q2 \<or>
          (\<exists>n'. highest_differing_bit (coord ax' q1) (coord ax' q2) n' \<and>
             (n' < n \<or> n' = n \<and> axis_rank ax' < axis_rank ax))))"

lemma hdb_top_bit: "highest_differing_bit a c n \<longleftrightarrow> top_bit (a XOR c) n"
  by (auto simp add: highest_differing_bit_def top_bit_def bit_xor_iff)

lemma log2_diff_hdb:
  assumes "highest_differing_bit (coord ax q1) (coord ax q2) n"
  shows "log2_diff q1 q2 ax = int n"
  using assms unfolding hdb_top_bit log2_diff_def by (rule log2_top_bit)

lemma log2_diff_eq:
  assumes "coord ax q1 = coord ax q2"
  shows "log2_diff q1 q2 ax = - 1"
  using assms by (simp add: log2_diff_def log2_zero)

lemma log2_diff_neq:
  assumes "coord ax q1 \<noteq> coord ax q2"
  shows "0 \<le> log2_diff q1 q2 ax"
    "highest_differing_bit (coord ax q1) (coord ax q2) (nat (log2_diff q1 q2 ax))"
proof -
  from assms have "coord ax q1 XOR coord ax q2 \<noteq> 0" by (simp add: xor_eq_0_iff_eq)
  from top_bit_log2[OF this]
  show "0 \<le> log2_diff q1 q2 ax"
    "highest_differing_bit (coord ax q1) (coord ax q2) (nat (log2_diff q1 q2 ax))"
    unfolding hdb_top_bit log2_diff_def by simp_all
qed

lemma log2_diff_nonneg_iff: "0 \<le> log2_diff q1 q2 ax \<longleftrightarrow> coord ax q1 \<noteq> coord ax q2"
  using log2_diff_eq[of ax q1 q2] log2_diff_neq(1)[of ax q1 q2] by auto

lemma decides_log2:
  "decides b q1 q2 ax \<longleftrightarrow> ax \<in> axes b \<and> 0 \<le> log2_diff q1 q2 ax \<and>
     (\<forall>ax'\<in>axes b. ax' \<noteq> ax \<longrightarrow>
        log2_diff q1 q2 ax' < log2_diff q1 q2 ax \<or>
        log2_diff q1 q2 ax' = log2_diff q1 q2 ax \<and> axis_rank ax' < axis_rank ax)"
  (is "?L \<longleftrightarrow> ?R")
proof
  assume ?L
  then obtain n where ax: "ax \<in> axes b"
    and n: "highest_differing_bit (coord ax q1) (coord ax q2) n"
    and o: "\<forall>ax'\<in>axes b. ax' \<noteq> ax \<longrightarrow>
          coord ax' q1 = coord ax' q2 \<or>
          (\<exists>n'. highest_differing_bit (coord ax' q1) (coord ax' q2) n' \<and>
             (n' < n \<or> n' = n \<and> axis_rank ax' < axis_rank ax))"
    unfolding decides_def by blast
  have l: "log2_diff q1 q2 ax = int n" by (rule log2_diff_hdb[OF n])
  have "log2_diff q1 q2 ax' < log2_diff q1 q2 ax \<or>
        log2_diff q1 q2 ax' = log2_diff q1 q2 ax \<and> axis_rank ax' < axis_rank ax"
    if "ax' \<in> axes b" "ax' \<noteq> ax" for ax'
  proof -
    from o that consider "coord ax' q1 = coord ax' q2"
      | n' where "highest_differing_bit (coord ax' q1) (coord ax' q2) n'"
        "n' < n \<or> n' = n \<and> axis_rank ax' < axis_rank ax"
      by blast
    then show ?thesis
    proof cases
      case 1
      then show ?thesis using l by (simp add: log2_diff_eq)
    next
      case 2
      then show ?thesis using l log2_diff_hdb[OF 2(1)] by auto
    qed
  qed
  with ax l show ?R by simp
next
  assume r: ?R
  then have ax: "ax \<in> axes b" and nn: "0 \<le> log2_diff q1 q2 ax" by simp_all
  define n where "n = nat (log2_diff q1 q2 ax)"
  have l: "log2_diff q1 q2 ax = int n" using nn by (simp add: n_def)
  from nn have ne: "coord ax q1 \<noteq> coord ax q2" by (simp add: log2_diff_nonneg_iff)
  have n: "highest_differing_bit (coord ax q1) (coord ax q2) n"
    unfolding n_def by (rule log2_diff_neq(2)[OF ne])
  have "coord ax' q1 = coord ax' q2 \<or>
          (\<exists>n'. highest_differing_bit (coord ax' q1) (coord ax' q2) n' \<and>
             (n' < n \<or> n' = n \<and> axis_rank ax' < axis_rank ax))"
    if "ax' \<in> axes b" "ax' \<noteq> ax" for ax'
  proof (cases "coord ax' q1 = coord ax' q2")
    case False
    from r that have c: "log2_diff q1 q2 ax' < log2_diff q1 q2 ax \<or>
        log2_diff q1 q2 ax' = log2_diff q1 q2 ax \<and> axis_rank ax' < axis_rank ax" by blast
    note h = log2_diff_neq[OF False]
    have "nat (log2_diff q1 q2 ax') < n \<or>
        nat (log2_diff q1 q2 ax') = n \<and> axis_rank ax' < axis_rank ax"
      using c h(1) l by auto
    with h(2) show ?thesis by blast
  qed simp
  with ax n show ?L unfolding decides_def by blast
qed

lemma decides_compare_axis:
  assumes "\<not> same_coords b q1 q2"
  shows "decides b q1 q2 ax \<longleftrightarrow> ax = compare_axis b q1 q2"
proof -
  define hx where "hx = log2_diff q1 q2 X_axis"
  define hy where "hy = log2_diff q1 q2 Y_axis"
  define hz where "hz = log2_diff q1 q2 Z_axis"
  have lo: "- 1 \<le> hx" "- 1 \<le> hy" "- 1 \<le> hz"
    by (simp_all add: hx_def hy_def hz_def log2_diff_def log2_ge_minus1)
  from assms have "0 \<le> hx \<or> 0 \<le> hy \<or> (P4_TO_P8 b \<and> 0 \<le> hz)"
    unfolding same_coords_iff hx_def hy_def hz_def log2_diff_nonneg_iff by auto
  then show ?thesis
    using lo unfolding decides_log2 compare_axis_def axes_def
      hx_def[symmetric] hy_def[symmetric] hz_def[symmetric]
    by (cases ax; cases "P4_TO_P8 b") (auto simp: hx_def[symmetric] hy_def[symmetric] hz_def[symmetric])
qed


section \<open>Ancestors at a level\<close>

definition anc :: "build \<Rightarrow> p4est_quadrant_t \<Rightarrow> nat \<Rightarrow> p4est_quadrant_t" where
  "anc b q l = q\<lparr>q_x := q_x q AND NOT (mask (maxl b - l)),
                 q_y := q_y q AND NOT (mask (maxl b - l)),
                 q_z := (if P4_TO_P8 b then q_z q AND NOT (mask (maxl b - l)) else q_z q),
                 q_level := of_nat l\<rparr>"

lemma bit_and_not_mask:
  "bit (c AND NOT (mask k)) n \<longleftrightarrow> bit c n \<and> k \<le> n" for c :: "32 word"
  by (auto simp add: bit_simps not_less dest: bit_imp_le_length)

lemma and_not_mask_pow2:
  "(c AND NOT (mask k)) AND NOT (2 ^ k) = c AND NOT (mask (Suc k))" for c :: "32 word"
  by (rule bit_word_eqI) (auto simp add: bit_and_not_mask bit_and_not_pow2)

lemma sint_level_of_nat:
  assumes "l \<le> 30"
  shows "sint (of_nat l :: 8 word) = int l"
  using sint_level_of_int[of "int l"] assms by simp

lemma level_of_nat_pred:
  assumes "0 < j"
  shows "(of_nat j :: 8 word) - 1 = of_nat (j - 1)"
  using assms by (cases j) simp_all

lemma and_not_mask_aligned:
  fixes c :: "32 word"
  assumes "take_bit k c = 0"
  shows "c AND NOT (mask k) = c"
proof (rule bit_word_eqI)
  fix n
  from assms have "\<forall>n<k. \<not> bit c n" by (simp only: take_bit_eq_0_bits)
  then have "bit c n \<Longrightarrow> k \<le> n" by (meson not_le)
  then show "bit (c AND NOT (mask k)) n \<longleftrightarrow> bit c n"
    by (auto simp add: bit_and_not_mask)
qed

lemma ext_coord_mask:
  assumes "ext_coord M k c" "k' \<le> M"
  shows "ext_coord M k' (c AND NOT (mask k'))"
proof -
  from assms(1) have i: "in_3x3 M c" by (simp add: ext_coord_def)
  have "\<forall>n<k'. \<not> bit (c AND NOT (mask k')) n"
    by (simp add: bit_and_not_mask)
  moreover have "in_3x3 M (c AND NOT (mask k'))"
    using i assms(2) unfolding in_3x3_def bit_and_not_mask by auto
  ultimately show ?thesis unfolding ext_coord_def take_bit_eq_0_bits by blast
qed

lemma anc_sel:
  "q_x (anc b q l) = q_x q AND NOT (mask (maxl b - l))"
  "q_y (anc b q l) = q_y q AND NOT (mask (maxl b - l))"
  "P4_TO_P8 b \<Longrightarrow> q_z (anc b q l) = q_z q AND NOT (mask (maxl b - l))"
  "\<not> P4_TO_P8 b \<Longrightarrow> q_z (anc b q l) = q_z q"
  "q_level (anc b q l) = of_nat l"
  by (simp_all add: anc_def)

lemma anc_level:
  assumes "wf_build b" "l \<le> maxl b"
  shows "sint (q_level (anc b q l)) = int l" "lev (anc b q l) = l"
proof -
  show "sint (q_level (anc b q l)) = int l"
    using assms wf_buildD(2)[OF assms(1)] by (simp add: anc_sel sint_level_of_nat)
  then show "lev (anc b q l) = l" by (simp add: lev_def)
qed

lemma anc_extended:
  assumes wf: "wf_build b" and e: "p4est_quadrant_is_extended b q" and l: "l \<le> lev q"
  shows "p4est_quadrant_is_extended b (anc b q l)"
proof -
  note L = extended_levelD[OF wf e]
  from l L(5) have lm: "l \<le> maxl b" "l < maxl b" by simp_all
  note al = anc_level[OF wf lm(1), of q]
  from e have c: "ext_coord (maxl b) (maxl b - lev q) (q_x q)"
    "ext_coord (maxl b) (maxl b - lev q) (q_y q)"
    "P4_TO_P8 b \<Longrightarrow> ext_coord (maxl b) (maxl b - lev q) (q_z q)"
    unfolding is_extended_iff[OF wf] by simp_all
  have k: "maxl b - l \<le> maxl b" by simp
  show ?thesis
    unfolding is_extended_iff[OF wf] al
    using ext_coord_mask[OF c(1) k] ext_coord_mask[OF c(2) k] ext_coord_mask[OF c(3) k] lm(2)
    by (simp add: anc_sel)
qed

lemma anc_self:
  assumes wf: "wf_build b" and e: "p4est_quadrant_is_extended b q"
  shows "anc b q (lev q) = q"
proof -
  note L = extended_levelD[OF wf e]
  from e have c: "take_bit (maxl b - lev q) (q_x q) = 0"
    "take_bit (maxl b - lev q) (q_y q) = 0"
    "P4_TO_P8 b \<Longrightarrow> take_bit (maxl b - lev q) (q_z q) = 0"
    unfolding is_extended_iff[OF wf] ext_coord_def by simp_all
  have "word_of_int (int (lev q)) = q_level q"
    unfolding L(4) by simp
  then have "of_nat (lev q) = q_level q" by simp
  then show ?thesis
    unfolding anc_def
    using and_not_mask_aligned[OF c(1)] and_not_mask_aligned[OF c(2)]
      and_not_mask_aligned[OF c(3)]
    by (cases "P4_TO_P8 b") simp_all
qed

lemma parent_anc:
  assumes wf: "wf_build b" and e: "p4est_quadrant_is_extended b q"
    and j: "0 < j" "j \<le> lev q"
  shows "p4est_quadrant_parent b (anc b q j) (anc b q j) = Some (anc b q (j - 1))"
proof -
  note L = extended_levelD[OF wf e]
  from j L(5) have jm: "j \<le> maxl b" "j < maxl b" by simp_all
  note al = anc_level[OF wf jm(1), of q]
  have ea: "p4est_quadrant_is_extended b (anc b q j)"
    by (rule anc_extended[OF wf e j(2)])
  have pos: "0 < sint (q_level (anc b q j))" using al j by simp
  have len: "P4EST_QUADRANT_LEN b (sint (q_level (anc b q j))) = 2 ^ (maxl b - j)"
    using quadrant_len_eq[OF wf, of "int j"] al by simp
  have k: "Suc (maxl b - j) = maxl b - (j - 1)" using j jm by simp
  have lv: "(of_nat j :: 8 word) - 1 = of_nat (j - 1)"
    using j(1) by (rule level_of_nat_pred)
  have "parent_res b (anc b q j) (anc b q j) = anc b q (j - 1)"
    unfolding parent_res_def Let_def len
    by (cases "P4_TO_P8 b") (simp_all add: anc_def and_not_mask_pow2 k lv del: One_nat_def)
  then show ?thesis
    using parent_Some[OF wf ea pos, of "anc b q j"] by simp
qed


section \<open>The loops of the iterative nearest common ancestor\<close>

lemma promote_stop:
  assumes "sint (q_level s) \<le> l"
  shows "nca_promote b s l = Some s"
  using assms by (subst nca_promote.simps) simp

lemma promote_anc_gen:
  assumes wf: "wf_build b" and e: "p4est_quadrant_is_extended b q" and d: "l + d \<le> lev q"
  shows "nca_promote b (anc b q (l + d)) (int l) = Some (anc b q l)"
  using d
proof (induction d)
  case 0
  then have "l \<le> maxl b" using extended_levelD(5)[OF wf e] by simp
  from anc_level(1)[OF wf this, of q] show ?case
    by (simp add: promote_stop)
next
  case (Suc d)
  define j where "j = Suc (l + d)"
  from Suc.prems have jq: "j \<le> lev q" "0 < j" "j - 1 = l + d" by (simp_all add: j_def)
  then have le: "j \<le> maxl b" using extended_levelD(5)[OF wf e] by simp
  have gt: "sint (q_level (anc b q j)) > int l"
    using anc_level(1)[OF wf le, of q] by (simp add: j_def)
  have p: "p4est_quadrant_parent b (anc b q j) (anc b q j) = Some (anc b q (l + d))"
    using parent_anc[OF wf e jq(2,1)] jq(3) by simp
  have "nca_promote b (anc b q j) (int l) = nca_promote b (anc b q (l + d)) (int l)"
    by (subst nca_promote.simps) (simp add: gt p)
  with Suc show ?case by (simp add: j_def)
qed

lemma promote_anc:
  assumes wf: "wf_build b" and e: "p4est_quadrant_is_extended b q" and l: "l \<le> lev q"
  shows "nca_promote b q (int l) = Some (anc b q l)"
proof -
  from l have "l + (lev q - l) \<le> lev q" by simp
  from promote_anc_gen[OF wf e this] l show ?thesis
    by (simp add: anc_self[OF wf e])
qed

definition agree :: "build \<Rightarrow> p4est_quadrant_t \<Rightarrow> p4est_quadrant_t \<Rightarrow> nat \<Rightarrow> bool" where
  "agree b q1 q2 k \<longleftrightarrow> (\<forall>ax\<in>axes b. \<forall>n\<ge>k. bit (coord ax q1) n = bit (coord ax q2) n)"

lemma and_not_mask_eq_iff:
  "a AND NOT (mask k) = c AND NOT (mask k) \<longleftrightarrow> (\<forall>n\<ge>k. bit a n = bit c n)"
  for a c :: "32 word"
proof
  assume h: "a AND NOT (mask k) = c AND NOT (mask k)"
  show "\<forall>n\<ge>k. bit a n = bit c n"
  proof (intro allI impI)
    fix n assume "k \<le> n"
    with h bit_and_not_mask[of a k n] bit_and_not_mask[of c k n]
    show "bit a n = bit c n" by simp
  qed
next
  assume h: "\<forall>n\<ge>k. bit a n = bit c n"
  show "a AND NOT (mask k) = c AND NOT (mask k)"
    by (rule bit_word_eqI) (use h in \<open>auto simp add: bit_and_not_mask\<close>)
qed

lemma agree_iff:
  "agree b q1 q2 k \<longleftrightarrow>
     (\<forall>n\<ge>k. bit (q_x q1) n = bit (q_x q2) n) \<and> (\<forall>n\<ge>k. bit (q_y q1) n = bit (q_y q2) n) \<and>
     (P4_TO_P8 b \<longrightarrow> (\<forall>n\<ge>k. bit (q_z q1) n = bit (q_z q2) n))"
  by (auto simp add: agree_def axes_def)

lemma anc_coords_eq_iff:
  "(q_x (anc b q1 j) = q_x (anc b q2 j) \<and> q_y (anc b q1 j) = q_y (anc b q2 j)) \<and>
   (P4_TO_P8 b \<longrightarrow> q_z (anc b q1 j) = q_z (anc b q2 j)) \<longleftrightarrow> agree b q1 q2 (maxl b - j)"
  unfolding agree_iff
  by (cases "P4_TO_P8 b") (simp_all add: anc_sel and_not_mask_eq_iff)

lemma is_equal_anc:
  assumes wf: "wf_build b" and e: "p4est_quadrant_is_extended b q1" "p4est_quadrant_is_extended b q2"
    and j: "j \<le> lev q1" "j \<le> lev q2"
  shows "p4est_quadrant_is_equal b (anc b q1 j) (anc b q2 j) = Some (agree b q1 q2 (maxl b - j))"
  using anc_extended[OF wf e(1) j(1)] anc_extended[OF wf e(2) j(2)]
    anc_coords_eq_iff[of b q1 j q2]
  by (simp add: p4est_quadrant_is_equal_def anc_sel(5))

lemma parent_level0:
  assumes "sint (q_level q) = 0"
  shows "p4est_quadrant_parent b q r = None"
  using assms by (simp add: parent_unfold)

lemma climb_anc:
  assumes wf: "wf_build b" and e: "p4est_quadrant_is_extended b q1" "p4est_quadrant_is_extended b q2"
    and K: "\<And>k. agree b q1 q2 k \<longleftrightarrow> K \<le> k"
    and j: "j \<le> lev q1" "j \<le> lev q2"
  shows "nca_climb b (anc b q1 j) (anc b q2 j) =
    (if K \<le> maxl b
     then Some (anc b q1 (min j (maxl b - K)), anc b q2 (min j (maxl b - K))) else None)"
  using j
proof (induction j)
  case 0
  have l0: "sint (q_level (anc b q1 0)) = 0"
    using anc_level(1)[OF wf, of 0 q1] by simp
  show ?case
    by (subst nca_climb.simps)
      (simp add: is_equal_anc[OF wf e 0] K parent_level0[OF l0])
next
  case (Suc j)
  from Suc.prems have jm: "Suc j \<le> maxl b" using extended_levelD(5)[OF wf e(1)] by simp
  have p: "p4est_quadrant_parent b (anc b q1 (Suc j)) (anc b q1 (Suc j)) = Some (anc b q1 j)"
    "p4est_quadrant_parent b (anc b q2 (Suc j)) (anc b q2 (Suc j)) = Some (anc b q2 j)"
    using parent_anc[OF wf e(1), of "Suc j"] parent_anc[OF wf e(2), of "Suc j"] Suc.prems
    by simp_all
  show ?case
  proof (cases "K \<le> maxl b - Suc j")
    case True
    then have "min (Suc j) (maxl b - K) = Suc j" "K \<le> maxl b" using jm by simp_all
    with True show ?thesis
      by (subst nca_climb.simps) (simp add: is_equal_anc[OF wf e Suc.prems] K)
  next
    case False
    then have m: "min (Suc j) (maxl b - K) = min j (maxl b - K)" by simp
    have "nca_climb b (anc b q1 (Suc j)) (anc b q2 (Suc j)) = nca_climb b (anc b q1 j) (anc b q2 j)"
      using False
      by (subst nca_climb.simps) (simp add: is_equal_anc[OF wf e Suc.prems] K p)
    also have "\<dots> = (if K \<le> maxl b
       then Some (anc b q1 (min j (maxl b - K)), anc b q2 (min j (maxl b - K))) else None)"
      using Suc by simp
    finally show ?thesis unfolding m .
  qed
qed


section \<open>The closed-form nearest common ancestor\<close>

definition nca_maxclor :: "build \<Rightarrow> p4est_quadrant_t \<Rightarrow> p4est_quadrant_t \<Rightarrow> 32 word" where
  "nca_maxclor b q1 q2 =
     (if P4_TO_P8 b then (q_x q1 XOR q_x q2) OR (q_y q1 XOR q_y q2) OR (q_z q1 XOR q_z q2)
      else (q_x q1 XOR q_x q2) OR (q_y q1 XOR q_y q2))"

definition nca_maxlevel :: "build \<Rightarrow> p4est_quadrant_t \<Rightarrow> p4est_quadrant_t \<Rightarrow> int" where
  "nca_maxlevel b q1 q2 = SC_LOG2_32 (nca_maxclor b q1 q2) + 1"

lemma nca_maxlevel_nonneg: "0 \<le> nca_maxlevel b q1 q2"
  using log2_ge_minus1[of "nca_maxclor b q1 q2"] by (simp add: nca_maxlevel_def)

lemma agree_maxlevel: "agree b q1 q2 k \<longleftrightarrow> nat (nca_maxlevel b q1 q2) \<le> k"
proof -
  have "nat (nca_maxlevel b q1 q2) \<le> k \<longleftrightarrow> SC_LOG2_32 (nca_maxclor b q1 q2) < int k"
    using nca_maxlevel_nonneg[of b q1 q2] by (auto simp add: nca_maxlevel_def)
  also have "\<dots> \<longleftrightarrow> (\<forall>n\<ge>k. \<not> bit (nca_maxclor b q1 q2) n)"
    by (rule log2_less_iff)
  also have "\<dots> \<longleftrightarrow> agree b q1 q2 k"
    unfolding agree_iff nca_maxclor_def
    by (cases "P4_TO_P8 b") (auto simp add: bit_or_iff bit_xor_iff)
  finally show ?thesis by simp
qed

definition nca_res ::
    "build \<Rightarrow> p4est_quadrant_t \<Rightarrow> p4est_quadrant_t \<Rightarrow> p4est_quadrant_t \<Rightarrow> p4est_quadrant_t" where
  "nca_res b q1 q2 r =
     (let r = r\<lparr>q_x := q_x q1 AND NOT (mask (nat (nca_maxlevel b q1 q2)))\<rparr>;
          r = r\<lparr>q_y := q_y q1 AND NOT (mask (nat (nca_maxlevel b q1 q2)))\<rparr>;
          r = (if P4_TO_P8 b
               then r\<lparr>q_z := q_z q1 AND NOT (mask (nat (nca_maxlevel b q1 q2)))\<rparr> else r)
      in r\<lparr>q_level := word_of_int (min (P4EST_MAXLEVEL b - nca_maxlevel b q1 q2)
                                      (min (sint (q_level q1)) (sint (q_level q2))))\<rparr>)"

lemma if_and_None:
  "(if a \<and> c then (if d then (if e then x else None) else None) else None) =
   (if a \<and> c \<and> d \<and> e then x else None)"
  by simp

lemma nca_unfold:
  "p4est_nearest_common_ancestor b q1 q2 r =
     (if p4est_quadrant_is_extended b q1 \<and> p4est_quadrant_is_extended b q2 \<and>
         nca_maxlevel b q1 q2 \<le> P4EST_MAXLEVEL b \<and>
         p4est_quadrant_is_extended b (nca_res b q1 q2 r)
      then Some (nca_res b q1 q2 r) else None)"
proof -
  have m: "(push_bit n 1 - 1 :: 32 word) = mask n" for n
    by (simp add: mask_eq_exp_minus_1)
  show ?thesis
    unfolding p4est_nearest_common_ancestor_def nca_res_def Let_def P4EST_ASSERT_bind m
      nca_maxlevel_def nca_maxclor_def
    by (simp add: if_and_None cong: if_cong)
qed

definition nca_D_res :: "build \<Rightarrow> p4est_quadrant_t \<Rightarrow> p4est_quadrant_t \<Rightarrow> p4est_quadrant_t" where
  "nca_D_res b s1 r =
     (let r = r\<lparr>q_x := q_x s1, q_y := q_y s1\<rparr>;
          r = (if P4_TO_P8 b then r\<lparr>q_z := q_z s1\<rparr> else r)
      in r\<lparr>q_level := q_level s1\<rparr>)"

lemma nca_D_unfold:
  assumes wf: "wf_build b" and e: "p4est_quadrant_is_extended b q1" "p4est_quadrant_is_extended b q2"
  defines "l \<equiv> min (lev q1) (lev q2)"
  shows "p4est_nearest_common_ancestor_D b q1 q2 r =
    (case nca_climb b (anc b q1 l) (anc b q2 l) of None \<Rightarrow> None
     | Some (s1, s2) \<Rightarrow>
        if p4est_quadrant_is_extended b (nca_D_res b s1 r) then Some (nca_D_res b s1 r)
        else None)"
proof -
  note L1 = extended_levelD[OF wf e(1)] and L2 = extended_levelD[OF wf e(2)]
  have s1: "nca_promote b q1 (sint (q_level q2)) = Some (anc b q1 l)"
  proof (cases "lev q2 \<le> lev q1")
    case True
    then have "l = lev q2" by (simp add: l_def)
    with promote_anc[OF wf e(1) True] L2(4) show ?thesis by simp
  next
    case False
    then have l: "l = lev q1" by (simp add: l_def)
    from False have "sint (q_level q1) \<le> sint (q_level q2)"
      using L1(4) L2(4) by simp
    then show ?thesis unfolding l anc_self[OF wf e(1)] by (rule promote_stop)
  qed
  have lm: "l \<le> maxl b" using L1(5) by (simp add: l_def)
  note al = anc_level(1)[OF wf lm]
  have s2: "nca_promote b q2 (sint (of_nat l :: 8 word)) = Some (anc b q2 l)"
    using al promote_anc[OF wf e(2), of l] by (simp add: l_def anc_sel(5))
  have "p4est_nearest_common_ancestor_D b q1 q2 r =
    nca_climb b (anc b q1 l) (anc b q2 l) \<bind>
      (\<lambda>(s1, s2). if p4est_quadrant_is_extended b (nca_D_res b s1 r)
          then Some (nca_D_res b s1 r) else None)"
    unfolding p4est_nearest_common_ancestor_D_def Let_def P4EST_ASSERT_bind nca_D_res_def
    using e by (simp add: s1 s2 anc_sel(5) cong: if_cong)
  then show ?thesis
    by (cases "nca_climb b (anc b q1 l) (anc b q2 l)") auto
qed


lemma nca_coord_eq:
  fixes c1 c2 :: "32 word"
  assumes a1: "take_bit (M - l1) c1 = 0" and a2: "take_bit (M - l2) c2 = 0"
    and ag: "\<forall>n\<ge>K. bit c1 n = bit c2 n" and K: "K \<le> M"
    and i: "i = min (min l1 l2) (M - K)"
  shows "c1 AND NOT (mask (M - i)) = c1 AND NOT (mask K)"
proof (rule bit_word_eqI)
  fix n
  from a1 have z1: "\<forall>n<M - l1. \<not> bit c1 n" by (simp only: take_bit_eq_0_bits)
  from a2 have z2: "\<forall>n<M - l2. \<not> bit c2 n" by (simp only: take_bit_eq_0_bits)
  have ge: "K \<le> M - i" using K i by simp
  have "M - i \<le> n" if b: "bit c1 n" and kn: "K \<le> n"
  proof -
    from z1 b have 1: "M - l1 \<le> n" by (meson not_le)
    from ag kn b have "bit c2 n" by simp
    with z2 have 2: "M - l2 \<le> n" by (meson not_le)
    from 1 2 kn K show ?thesis unfolding i by (simp add: min_def split: if_splits)
  qed
  with ge show "bit (c1 AND NOT (mask (M - i))) n \<longleftrightarrow> bit (c1 AND NOT (mask K)) n"
    unfolding bit_and_not_mask by (meson order_trans)
qed

lemma nca_res_eq:
  assumes wf: "wf_build b" and e: "p4est_quadrant_is_extended b q1" "p4est_quadrant_is_extended b q2"
    and K: "nca_maxlevel b q1 q2 \<le> P4EST_MAXLEVEL b"
  defines "i \<equiv> min (min (lev q1) (lev q2)) (maxl b - nat (nca_maxlevel b q1 q2))"
  shows "nca_D_res b (anc b q1 i) r = nca_res b q1 q2 r"
proof -
  define K' where "K' = nat (nca_maxlevel b q1 q2)"
  note M = wf_buildD[OF wf]
  note L1 = extended_levelD[OF wf e(1)] and L2 = extended_levelD[OF wf e(2)]
  have Kn: "nca_maxlevel b q1 q2 = int K'"
    using nca_maxlevel_nonneg[of b q1 q2] by (simp add: K'_def)
  have KM: "K' \<le> maxl b" using K M(3) Kn by simp
  have i': "i = min (min (lev q1) (lev q2)) (maxl b - K')" by (simp add: i_def K'_def)
  have ag: "agree b q1 q2 K'" unfolding agree_maxlevel K'_def by simp
  from e(1) have a1: "take_bit (maxl b - lev q1) (q_x q1) = 0"
    "take_bit (maxl b - lev q1) (q_y q1) = 0"
    "P4_TO_P8 b \<Longrightarrow> take_bit (maxl b - lev q1) (q_z q1) = 0"
    unfolding is_extended_iff[OF wf] ext_coord_def by simp_all
  from e(2) have a2: "take_bit (maxl b - lev q2) (q_x q2) = 0"
    "take_bit (maxl b - lev q2) (q_y q2) = 0"
    "P4_TO_P8 b \<Longrightarrow> take_bit (maxl b - lev q2) (q_z q2) = 0"
    unfolding is_extended_iff[OF wf] ext_coord_def by simp_all
  from ag have g: "\<forall>n\<ge>K'. bit (q_x q1) n = bit (q_x q2) n"
    "\<forall>n\<ge>K'. bit (q_y q1) n = bit (q_y q2) n"
    "P4_TO_P8 b \<Longrightarrow> \<forall>n\<ge>K'. bit (q_z q1) n = bit (q_z q2) n"
    unfolding agree_iff by simp_all
  note cx = nca_coord_eq[OF a1(1) a2(1) g(1) KM i']
  note cy = nca_coord_eq[OF a1(2) a2(2) g(2) KM i']
  note cz = nca_coord_eq[OF a1(3) a2(3) g(3) KM i']
  have "min (P4EST_MAXLEVEL b - nca_maxlevel b q1 q2)
      (min (sint (q_level q1)) (sint (q_level q2))) = int i"
    unfolding Kn M(3) L1(4)[symmetric] L2(4)[symmetric] i' using KM by (simp add: min_def) arith
  then have lv: "(word_of_int (min (P4EST_MAXLEVEL b - nca_maxlevel b q1 q2)
      (min (sint (q_level q1)) (sint (q_level q2)))) :: 8 word) = of_nat i"
    by simp
  show ?thesis
    unfolding nca_D_res_def nca_res_def Let_def lv K'_def[symmetric]
    using cx cy cz by (cases "P4_TO_P8 b") (simp_all add: anc_sel)
qed

lemma extended_fields_cong:
  assumes "q_x a = q_x c" "q_y a = q_y c" "P4_TO_P8 b \<Longrightarrow> q_z a = q_z c" "q_level a = q_level c"
  shows "p4est_quadrant_is_extended b a = p4est_quadrant_is_extended b c"
  using assms
  by (cases "P4_TO_P8 b")
    (simp_all add: p4est_quadrant_is_extended_def p4est_quadrant_is_inside_3x3_def)

lemma nca_D_res_extended:
  "p4est_quadrant_is_extended b (nca_D_res b s r) = p4est_quadrant_is_extended b s"
  by (rule extended_fields_cong) (simp_all add: nca_D_res_def Let_def)

lemma inside_root_high_bits:
  fixes c :: "32 word"
  assumes M: "M \<le> 30" and c: "0 \<le>s c" "c <s 2 ^ M"
  shows "\<forall>n\<ge>M. \<not> bit c n"
proof (intro allI impI)
  fix n assume n: "M \<le> n"
  from c have s: "0 \<le> sint c" "sint c < 2 ^ M"
    unfolding word_sle_eq word_sless_alt sint_pow2[OF M] by simp_all
  then have r: "- (2 ^ M) \<le> sint c \<and> sint c < 2 ^ M" by simp
  have "M < 32" using M by simp
  from iffD1[OF sint_range_bits[OF this] r]
  have h: "\<forall>i. M \<le> i \<and> i < 32 \<longrightarrow> bit c i = bit c M" .
  from s(1) have n31: "\<not> bit c 31" using sint_neg_iff_bit31[of c] by simp
  from h[rule_format, of 31] M n31 have "\<not> bit c M" by simp
  show "\<not> bit c n"
  proof (cases "n < 32")
    case True
    with h[rule_format, of n] n \<open>\<not> bit c M\<close> show ?thesis by simp
  next
    case False
    then show ?thesis by (auto dest: bit_imp_le_length)
  qed
qed

lemmas valid_eval =
  p4est_quadrant_is_valid_def p4est_quadrant_is_inside_root_def P4EST_QMAXLEVEL_def
  P4EST_QUADRANT_LEN_def P4EST_ROOT_LEN_def word_sle_eq word_sless_alt

section \<open>Order of words by the highest differing bit\<close>

lemma nat_less_by_top_bit:
  fixes a c :: nat
  assumes "\<not> bit a n" "bit c n" "drop_bit (Suc n) a = drop_bit (Suc n) c"
  shows "a < c"
proof -
  have a: "a = push_bit (Suc n) (drop_bit (Suc n) a) + take_bit (Suc n) a"
    by (simp only: bits_ident)
  have c: "c = push_bit (Suc n) (drop_bit (Suc n) c) + take_bit (Suc n) c"
    by (simp only: bits_ident)
  have ta: "take_bit (Suc n) a = take_bit n a"
    using assms(1) by (simp add: take_bit_Suc_from_most)
  have tc: "take_bit (Suc n) c = 2 ^ n + take_bit n c"
    using assms(2) by (simp add: take_bit_Suc_from_most)
  have "take_bit (Suc n) a < take_bit (Suc n) c"
    unfolding ta tc using take_bit_nat_less_exp[of n a] by linarith
  then have "push_bit (Suc n) (drop_bit (Suc n) a) + take_bit (Suc n) a
      < push_bit (Suc n) (drop_bit (Suc n) c) + take_bit (Suc n) c"
    unfolding assms(3) by simp
  with a c show ?thesis by simp
qed

lemma word_less_by_top_bit:
  fixes u v :: "'a::len word"
  assumes "\<not> bit u n" "bit v n" "\<forall>m>n. bit u m = bit v m"
  shows "u < v"
proof -
  have "drop_bit (Suc n) u = drop_bit (Suc n) v"
    using assms(3) by (intro bit_word_eqI) (simp add: bit_drop_bit_eq)
  then have "unat (drop_bit (Suc n) u) = unat (drop_bit (Suc n) v)" by simp
  then have d: "drop_bit (Suc n) (unat u) = drop_bit (Suc n) (unat v)"
    by (simp only: unat_drop_bit_eq)
  have "unat u < unat v"
    by (rule nat_less_by_top_bit[OF _ _ d]) (use assms(1,2) in \<open>simp_all add: bit_unsigned_iff\<close>)
  then show ?thesis by (simp add: word_less_nat_alt)
qed

lemma word_less_iff_top_bit:
  fixes u v :: "'a::len word"
  assumes "bit u n \<noteq> bit v n" "\<forall>m>n. bit u m = bit v m"
  shows "u < v \<longleftrightarrow> bit v n"
proof (cases "bit v n")
  case True
  with assms(1) have "\<not> bit u n" by simp
  from word_less_by_top_bit[OF this True assms(2)] True show ?thesis by simp
next
  case False
  with assms(1) have "bit u n" by simp
  from assms(2) have "\<forall>m>n. bit v m = bit u m" by simp
  from word_less_by_top_bit[OF False \<open>bit u n\<close> this] False show ?thesis by simp
qed


section \<open>The bits of a linear id\<close>

lemma div_mod_eq_iff:
  fixes j :: nat
  assumes "k < d"
  shows "j = d * i + k \<longleftrightarrow> j div d = i \<and> j mod d = k"
proof
  assume "j = d * i + k"
  with assms show "j div d = i \<and> j mod d = k" by simp
next
  assume "j div d = i \<and> j mod d = k"
  then have "d * i + k = d * (j div d) + j mod d" by simp
  then show "j = d * i + k" by simp
qed

definition interleave :: "build \<Rightarrow> 64 word \<Rightarrow> 64 word \<Rightarrow> 64 word \<Rightarrow> nat \<Rightarrow> 64 word" where
  "interleave b x y z n = fold (linear_id_step b x y z) [0..<n] 0"

definition pick :: "nat \<Rightarrow> 'a \<Rightarrow> 'a \<Rightarrow> 'a \<Rightarrow> 'a" where
  "pick k x y z = (if k = 0 then x else if k = 1 then y else z)"

lemma bit_place:
  "bit (push_bit m (x AND push_bit i 1) :: 64 word) j \<longleftrightarrow> j < 64 \<and> j = m + i \<and> bit x i"
  by (auto simp add: bit_simps)

lemma dim_cases: "P4EST_DIM b = 2 \<and> \<not> P4_TO_P8 b \<or> P4EST_DIM b = 3 \<and> P4_TO_P8 b"
  by (simp add: P4EST_DIM_def)

lemma bit_linear_id_step:
  "bit (linear_id_step b x y z i lid) j \<longleftrightarrow>
     bit lid j \<or> (j < 64 \<and> j div P4EST_DIM b = i \<and> bit (pick (j mod P4EST_DIM b) x y z) i)"
proof (cases "P4_TO_P8 b")
  case True
  then have d: "P4EST_DIM b = 3" by (simp add: P4EST_DIM_def)
  have "bit (linear_id_step b x y z i lid) j \<longleftrightarrow>
      bit lid j \<or> (j < 64 \<and> (j = 3 * i \<and> bit x i \<or> j = 3 * i + 1 \<and> bit y i \<or>
        j = 3 * i + 2 \<and> bit z i))"
    unfolding linear_id_step_def Let_def d
    by (simp only: True if_True bit_or_iff bit_place) auto
  also have "\<dots> \<longleftrightarrow> bit lid j \<or> (j < 64 \<and> j div 3 = i \<and> bit (pick (j mod 3) x y z) i)"
  proof -
    have k: "j = 3 * i \<longleftrightarrow> j div 3 = i \<and> j mod 3 = 0"
      "j = 3 * i + 1 \<longleftrightarrow> j div 3 = i \<and> j mod 3 = 1"
      "j = 3 * i + 2 \<longleftrightarrow> j div 3 = i \<and> j mod 3 = 2"
      using div_mod_eq_iff[of 0 3 j i] div_mod_eq_iff[of 1 3 j i] div_mod_eq_iff[of 2 3 j i]
      by simp_all
    have m: "j mod 3 = 0 \<or> j mod 3 = 1 \<or> j mod 3 = 2" by arith
    show ?thesis unfolding k using m by (auto simp add: pick_def)
  qed
  finally show ?thesis unfolding d .
next
  case False
  then have d: "P4EST_DIM b = 2" by (simp add: P4EST_DIM_def)
  have "bit (linear_id_step b x y z i lid) j \<longleftrightarrow>
      bit lid j \<or> (j < 64 \<and> (j = 2 * i \<and> bit x i \<or> j = 2 * i + 1 \<and> bit y i))"
    unfolding linear_id_step_def Let_def d
    by (simp only: False if_False bit_or_iff bit_place) auto
  also have "\<dots> \<longleftrightarrow> bit lid j \<or> (j < 64 \<and> j div 2 = i \<and> bit (pick (j mod 2) x y z) i)"
  proof -
    have k: "j = 2 * i \<longleftrightarrow> j div 2 = i \<and> j mod 2 = 0"
      "j = 2 * i + 1 \<longleftrightarrow> j div 2 = i \<and> j mod 2 = 1"
      using div_mod_eq_iff[of 0 2 j i] div_mod_eq_iff[of 1 2 j i]
      by simp_all
    have m: "j mod 2 = 0 \<or> j mod 2 = 1" by arith
    show ?thesis unfolding k using m by (auto simp add: pick_def)
  qed
  finally show ?thesis unfolding d .
qed

lemma bit_interleave:
  "bit (interleave b x y z n) j \<longleftrightarrow>
     j < 64 \<and> j div P4EST_DIM b < n \<and> bit (pick (j mod P4EST_DIM b) x y z) (j div P4EST_DIM b)"
proof (induction n)
  case 0
  show ?case by (simp add: interleave_def)
next
  case (Suc n)
  have s: "interleave b x y z (Suc n) = linear_id_step b x y z n (interleave b x y z n)"
    by (simp add: interleave_def)
  show ?case
    unfolding s bit_linear_id_step Suc.IH by (auto simp add: less_Suc_eq)
qed


definition axis_of :: "nat \<Rightarrow> axis" where
  "axis_of k = pick k X_axis Y_axis Z_axis"

definition morton_key :: "build \<Rightarrow> p4est_quadrant_t \<Rightarrow> 64 word" where
  "morton_key b q = interleave b (ucast (q_x q)) (ucast (q_y q)) (ucast (q_z q)) (maxl b + 2)"

lemma dim_pos: "0 < P4EST_DIM b"
  by (simp add: P4EST_DIM_def)

lemma pick_coord:
  "pick k (f (q_x q)) (f (q_y q)) (f (q_z q)) = f (coord (axis_of k) q)"
  by (simp add: pick_def axis_of_def)

lemma bit_morton_key:
  assumes wf: "wf_build b"
  shows "bit (morton_key b q) j \<longleftrightarrow>
    j < P4EST_DIM b * (maxl b + 2) \<and> bit (coord (axis_of (j mod P4EST_DIM b)) q) (j div P4EST_DIM b)"
proof -
  note M = wf_buildD[OF wf]
  have d: "j div P4EST_DIM b < maxl b + 2 \<longleftrightarrow> j < P4EST_DIM b * (maxl b + 2)"
    using dim_pos[of b] by (simp add: div_less_iff_less_mult mult.commute)
  have j: "j < 64" if "j < P4EST_DIM b * (maxl b + 2)"
    using that M(4) by simp
  have i: "j div P4EST_DIM b < 64" if "j div P4EST_DIM b < maxl b + 2"
    using that M(2) by simp
  show ?thesis
    unfolding morton_key_def bit_interleave pick_coord[of _ ucast] d[symmetric]
    using i j[unfolded d[symmetric]] by (auto simp add: bit_ucast_iff)
qed

lemma bit_lid_coord:
  fixes c :: "32 word"
  assumes "K + i < 32"
  shows "bit (scast (signed_drop_bit K c) :: 64 word) i \<longleftrightarrow> bit c (K + i)"
proof -
  from assms have 1: "min 31 i = i" "i < 64" by simp_all
  from assms have 2: "\<not> (LENGTH(32) - K \<le> i \<and> i < LENGTH(32))" by simp
  have "bit (scast (signed_drop_bit K c) :: 64 word) i \<longleftrightarrow> bit (signed_drop_bit K c) i"
    using 1 by (simp add: bit_signed_iff min.commute)
  also have "\<dots> \<longleftrightarrow> bit c (K + i)"
    unfolding bit_signed_drop_bit_iff using 2 by (simp only: if_False)
  finally show ?thesis .
qed

lemma linear_id_eq:
  assumes wf: "wf_build b" and e: "p4est_quadrant_is_extended b q" and l: "L \<le> lev q"
  shows "p4est_quadrant_linear_id b q (int L) =
    Some (drop_bit (P4EST_DIM b * (maxl b - L)) (morton_key b q))"
proof -
  note M = wf_buildD[OF wf]
  note E = extended_levelD[OF wf e]
  define K where "K = maxl b - L"
  define D where "D = P4EST_DIM b"
  have D: "0 < D" by (simp add: D_def dim_pos)
  from l E(5) have KL: "K + L = maxl b" by (simp add: K_def)
  have n: "nat (P4EST_MAXLEVEL b - int L) = K" "nat (int L + 2) = L + 2"
    using M(3) by (simp_all add: K_def)
  have a: "int L \<le> sint (q_level q) \<and> 0 \<le> int L"
    using l E(4) by simp
  have "p4est_quadrant_linear_id b q (int L) =
      Some (interleave b (scast (signed_drop_bit K (q_x q))) (scast (signed_drop_bit K (q_y q)))
        (scast (signed_drop_bit K (q_z q))) (L + 2))"
    unfolding p4est_quadrant_linear_id_def Let_def n interleave_def using e a by simp
  also have "interleave b (scast (signed_drop_bit K (q_x q))) (scast (signed_drop_bit K (q_y q)))
        (scast (signed_drop_bit K (q_z q))) (L + 2) = drop_bit (D * K) (morton_key b q)"
  proof (rule bit_word_eqI)
    fix j
    have lt: "D * K + j < D * (maxl b + 2) \<longleftrightarrow> j div D < L + 2"
    proof -
      have "D * (maxl b + 2) = D * K + D * (L + 2)"
        unfolding KL[symmetric] by (simp add: algebra_simps)
      then have "D * K + j < D * (maxl b + 2) \<longleftrightarrow> j < D * (L + 2)" by simp
      also have "\<dots> \<longleftrightarrow> j div D < L + 2"
        using D by (simp add: div_less_iff_less_mult mult.commute)
      finally show ?thesis .
    qed
    have dm: "(D * K + j) div D = K + j div D" "(D * K + j) mod D = j mod D"
      using D by simp_all
    have c: "bit (scast (signed_drop_bit K c) :: 64 word) (j div D) \<longleftrightarrow> bit c (K + j div D)"
      if "j div D < L + 2" for c :: "32 word"
      using that KL M(2) by (intro bit_lid_coord) simp
    have j64: "j < 64" if "j div D < L + 2"
    proof -
      from that lt have "D * K + j < D * (maxl b + 2)" by simp
      with M(4) show ?thesis unfolding D_def by simp
    qed
    have lhs: "bit (interleave b (scast (signed_drop_bit K (q_x q)))
        (scast (signed_drop_bit K (q_y q))) (scast (signed_drop_bit K (q_z q))) (L + 2)) j \<longleftrightarrow>
        j < 64 \<and> j div D < L + 2 \<and>
        bit (scast (signed_drop_bit K (coord (axis_of (j mod D)) q)) :: 64 word) (j div D)"
      unfolding bit_interleave pick_coord[of _ "\<lambda>c. scast (signed_drop_bit K c)"] D_def ..
    have "bit (drop_bit (D * K) (morton_key b q)) j \<longleftrightarrow> bit (morton_key b q) (D * K + j)"
      by (simp add: bit_drop_bit_eq)
    also have "\<dots> \<longleftrightarrow> D * K + j < D * (maxl b + 2) \<and>
        bit (coord (axis_of (j mod D)) q) (K + j div D)"
      unfolding bit_morton_key[OF wf] D_def[symmetric] dm ..
    finally have rhs: "bit (drop_bit (D * K) (morton_key b q)) j \<longleftrightarrow>
        j div D < L + 2 \<and> bit (coord (axis_of (j mod D)) q) (K + j div D)"
      unfolding lt .
    show "bit (interleave b (scast (signed_drop_bit K (q_x q))) (scast (signed_drop_bit K (q_y q)))
        (scast (signed_drop_bit K (q_z q))) (L + 2)) j \<longleftrightarrow> bit (drop_bit (D * K) (morton_key b q)) j"
      unfolding lhs rhs using c j64 by blast
  qed
  finally show ?thesis unfolding D_def K_def .
qed


section \<open>The total order is the order of the interleaved coordinates\<close>

lemma shifted_coord_eq:
  assumes wf: "wf_build b" and c: "in_3x3 (maxl b) c"
  shows "shifted_coord b c = uint (take_bit (maxl b + 2) c)"
proof -
  note M = wf_buildD[OF wf]
  define N where "N = maxl b + 2"
  have N: "nat (P4EST_MAXLEVEL b + 2) = N" "N \<le> 32"
    using M(2,3) by (simp_all add: N_def)
  from c have r: "- (2 ^ maxl b) \<le> sint c" "sint c < 2 ^ (maxl b + 1)"
    unfolding in_3x3_sint[OF M(2)] by simp_all
  have p: "(2::int) ^ maxl b \<le> 2 ^ N" "(2::int) ^ (maxl b + 1) \<le> 2 ^ N"
    unfolding N_def by (intro power_increasing; simp)+
  have "uint (take_bit N c) = take_bit N (uint c)"
    by (simp add: unsigned_take_bit_eq)
  also have "\<dots> = take_bit N (signed_take_bit 31 (uint c))"
    using N(2) by (simp add: take_bit_signed_take_bit)
  also have "signed_take_bit 31 (uint c) = sint c"
    by (simp add: sint_uint)
  also have "take_bit N (sint c) = sint c mod 2 ^ N"
    by (simp add: take_bit_eq_mod)
  also have "\<dots> = shifted_coord b c"
  proof (cases "sint c < 0")
    case True
    have "sint c mod 2 ^ N = (sint c + 2 ^ N) mod 2 ^ N" by simp
    also have "\<dots> = sint c + 2 ^ N"
      using True r(1) p(1) by (intro mod_pos_pos_trivial) linarith+
    finally show ?thesis using True by (simp add: shifted_coord_def N)
  next
    case False
    then have "sint c mod 2 ^ N = sint c"
      using r(2) p(2) by (intro mod_pos_pos_trivial) linarith+
    then show ?thesis using False by (simp add: shifted_coord_def)
  qed
  finally show ?thesis unfolding N_def by simp
qed

definition kdiff :: "nat \<Rightarrow> 32 word \<Rightarrow> 32 word \<Rightarrow> nat \<Rightarrow> bool" where
  "kdiff M a c n \<longleftrightarrow> n < M + 2 \<and> bit a n \<noteq> bit c n \<and>
     (\<forall>m. n < m \<and> m < M + 2 \<longrightarrow> bit a m = bit c m)"

lemma hdb_in_3x3:
  assumes M: "M \<le> 30" and a: "in_3x3 M a" and c: "in_3x3 M c"
    and h: "highest_differing_bit a c n"
  shows "n \<le> M \<or> n = 31" "kdiff M a c (min n (M + 1))"
proof -
  from h have d: "bit a n \<noteq> bit c n" and u: "\<And>m. n < m \<Longrightarrow> bit a m = bit c m"
    unfolding highest_differing_bit_def by simp_all
  from d have n32: "n < 32"
    using bit_imp_le_length[of a n] bit_imp_le_length[of c n] by auto
  show 1: "n \<le> M \<or> n = 31"
  proof (rule ccontr)
    assume "\<not> (n \<le> M \<or> n = 31)"
    with n32 have n: "M < n" "n < 31" by simp_all
    with n32 have "bit a n = bit a 31" "bit c n = bit c 31"
      using in_3x3_high[OF a, of n] in_3x3_high[OF c, of n] by simp_all
    with u[of 31] n(2) d show False by simp
  qed
  show "kdiff M a c (min n (M + 1))"
  proof (cases "n \<le> M")
    case True
    then have "min n (M + 1) = n" by simp
    with True d u show ?thesis by (simp add: kdiff_def)
  next
    case False
    with 1 have n: "n = 31" by simp
    from M have "M < M + 1" "M + 1 < 32" by simp_all
    then have "bit a (M + 1) = bit a 31" "bit c (M + 1) = bit c 31"
      using in_3x3_high[OF a, of "M + 1"] in_3x3_high[OF c, of "M + 1"] by simp_all
    with d n have "bit a (M + 1) \<noteq> bit c (M + 1)" by simp
    moreover have "min n (M + 1) = M + 1" using n M by simp
    ultimately show ?thesis by (auto simp add: kdiff_def)
  qed
qed

lemma kdiff_shifted:
  assumes wf: "wf_build b" and a: "in_3x3 (maxl b) a" and c: "in_3x3 (maxl b) c"
    and k: "kdiff (maxl b) a c n"
  shows "shifted_coord b a < shifted_coord b c \<longleftrightarrow> bit c n"
proof -
  let ?a = "take_bit (maxl b + 2) a" and ?c = "take_bit (maxl b + 2) c"
  from k have 1: "bit ?a n \<noteq> bit ?c n"
    by (simp add: kdiff_def bit_take_bit_iff)
  from k have 2: "\<forall>m>n. bit ?a m = bit ?c m"
    by (auto simp add: kdiff_def bit_take_bit_iff)
  from k have 3: "bit ?c n \<longleftrightarrow> bit c n"
    by (simp add: kdiff_def bit_take_bit_iff)
  show ?thesis
    unfolding shifted_coord_eq[OF wf a] shifted_coord_eq[OF wf c] word_less_def[symmetric]
      word_less_iff_top_bit[OF 1 2] 3 ..
qed

lemma axes_rank:
  assumes "ax \<in> axes b"
  shows "axis_rank ax < P4EST_DIM b" "axis_of (axis_rank ax) = ax"
  using assms by (cases ax; auto simp add: axes_def P4EST_DIM_def axis_of_def pick_def split: if_splits)+

lemma axis_of_axes:
  assumes "k < P4EST_DIM b"
  shows "axis_of k \<in> axes b" "axis_rank (axis_of k) = k"
  using assms by (auto simp add: axes_def P4EST_DIM_def axis_of_def pick_def split: if_splits)

lemma extended_coord:
  assumes wf: "wf_build b" and e: "p4est_quadrant_is_extended b q" and ax: "ax \<in> axes b"
  shows "in_3x3 (maxl b) (coord ax q)" "take_bit (maxl b - lev q) (coord ax q) = 0"
  using e ax unfolding is_extended_iff[OF wf] ext_coord_def axes_def
  by (cases ax; auto split: if_splits)+


lemma bit_morton_key_at:
  assumes wf: "wf_build b" and ax: "ax \<in> axes b"
  shows "bit (morton_key b q) (P4EST_DIM b * i + axis_rank ax) \<longleftrightarrow>
    i < maxl b + 2 \<and> bit (coord ax q) i"
proof -
  define p where "p = P4EST_DIM b * i + axis_rank ax"
  from div_mod_eq_iff[OF axes_rank(1)[OF ax], of p i]
  have dm: "p div P4EST_DIM b = i" "p mod P4EST_DIM b = axis_rank ax"
    by (simp_all add: p_def)
  have "p < P4EST_DIM b * (maxl b + 2) \<longleftrightarrow> p div P4EST_DIM b < maxl b + 2"
    using dim_pos[of b] by (simp add: div_less_iff_less_mult mult.commute)
  then show ?thesis
    unfolding p_def[symmetric] bit_morton_key[OF wf] dm axes_rank(2)[OF ax] by simp
qed

lemma morton_key_diff:
  assumes wf: "wf_build b" and d: "bit (morton_key b q) m \<noteq> bit (morton_key b r) m"
  shows "m div P4EST_DIM b < maxl b + 2" "axis_of (m mod P4EST_DIM b) \<in> axes b"
    "bit (coord (axis_of (m mod P4EST_DIM b)) q) (m div P4EST_DIM b) \<noteq>
     bit (coord (axis_of (m mod P4EST_DIM b)) r) (m div P4EST_DIM b)"
proof -
  have "m < P4EST_DIM b * (maxl b + 2) \<longleftrightarrow> m div P4EST_DIM b < maxl b + 2"
    using dim_pos[of b] by (simp add: div_less_iff_less_mult mult.commute)
  with d show "m div P4EST_DIM b < maxl b + 2"
    unfolding bit_morton_key[OF wf] by blast
  show "axis_of (m mod P4EST_DIM b) \<in> axes b"
    using dim_pos[of b] by (intro axis_of_axes(1)) simp
  from d show "bit (coord (axis_of (m mod P4EST_DIM b)) q) (m div P4EST_DIM b) \<noteq>
     bit (coord (axis_of (m mod P4EST_DIM b)) r) (m div P4EST_DIM b)"
    unfolding bit_morton_key[OF wf] by blast
qed

lemma lex_of_less:
  fixes D :: nat
  assumes "k < D" "D * n + k < m"
  shows "n < m div D \<or> (n = m div D \<and> k < m mod D)"
proof (rule ccontr)
  assume "\<not> ?thesis"
  then consider "m div D < n" | "m div D = n" "m mod D \<le> k" by force
  then show False
  proof cases
    case 1
    then have "Suc (m div D) \<le> n" by simp
    then have "D * Suc (m div D) \<le> D * n" by (rule mult_le_mono2)
    moreover have "m < D * Suc (m div D)"
      using assms(1) by (simp add: dividend_less_times_div)
    ultimately show False using assms(2) by simp
  next
    case 2
    have "m = D * (m div D) + m mod D" by simp
    with 2 assms(2) show False by simp
  qed
qed

lemma decides_key:
  assumes wf: "wf_build b"
    and e1: "p4est_quadrant_is_extended b q" and e2: "p4est_quadrant_is_extended b r"
    and d: "decides b q r ax"
  shows "\<exists>n. kdiff (maxl b) (coord ax q) (coord ax r) n \<and>
    (bit (morton_key b q) (P4EST_DIM b * n + axis_rank ax) \<longleftrightarrow> bit (coord ax q) n) \<and>
    (bit (morton_key b r) (P4EST_DIM b * n + axis_rank ax) \<longleftrightarrow> bit (coord ax r) n) \<and>
    (\<forall>m>P4EST_DIM b * n + axis_rank ax. bit (morton_key b q) m = bit (morton_key b r) m)"
proof -
  note M = wf_buildD[OF wf]
  define D where "D = P4EST_DIM b"
  from d have ax: "ax \<in> axes b" by (simp add: decides_def)
  from d obtain n0 where h: "highest_differing_bit (coord ax q) (coord ax r) n0"
    and o: "\<And>ax'. ax' \<in> axes b \<Longrightarrow> ax' \<noteq> ax \<Longrightarrow>
          coord ax' q = coord ax' r \<or>
          (\<exists>n'. highest_differing_bit (coord ax' q) (coord ax' r) n' \<and>
             (n' < n0 \<or> n' = n0 \<and> axis_rank ax' < axis_rank ax))"
    unfolding decides_def by blast
  define n where "n = min n0 (maxl b + 1)"
  note i1 = extended_coord(1)[OF wf e1] and i2 = extended_coord(1)[OF wf e2]
  note H = hdb_in_3x3[OF M(2) i1[OF ax] i2[OF ax] h, folded n_def]
  from H(2) have n: "n < maxl b + 2" by (simp add: kdiff_def)
  have above: "bit (morton_key b q) m = bit (morton_key b r) m" if m: "D * n + axis_rank ax < m" for m
  proof (rule ccontr)
    assume "bit (morton_key b q) m \<noteq> bit (morton_key b r) m"
    note K = morton_key_diff[OF wf this, folded D_def]
    define i where "i = m div D"
    define ax' where "ax' = axis_of (m mod D)"
    note K' = K[folded i_def ax'_def]
    have k: "axis_rank ax' = m mod D"
      unfolding ax'_def D_def using dim_pos[of b] by (intro axis_of_axes(2)[of _ b]) simp
    from lex_of_less[OF axes_rank(1)[OF ax, folded D_def] m]
    have lx: "n < i \<or> (n = i \<and> axis_rank ax < axis_rank ax')"
      unfolding i_def k .
    show False
    proof (cases "ax' = ax")
      case True
      with lx have "n < i" by simp
      with H(2) K'(1) K'(3) True show False by (simp add: kdiff_def)
    next
      case False
      from K'(3) have "coord ax' q \<noteq> coord ax' r" by auto
      with o[OF K'(2) False] obtain n1
        where h1: "highest_differing_bit (coord ax' q) (coord ax' r) n1"
          and lt: "n1 < n0 \<or> n1 = n0 \<and> axis_rank ax' < axis_rank ax" by blast
      note H1 = hdb_in_3x3[OF M(2) i1[OF K'(2)] i2[OF K'(2)] h1]
      have "min n1 (maxl b + 1) < i"
        using lt lx H(1) H1(1) M(2) unfolding n_def by (auto simp add: min_def split: if_splits)
      with H1(2) K'(1) K'(3) show False by (simp add: kdiff_def)
    qed
  qed
  have "bit (morton_key b q) (D * n + axis_rank ax) \<longleftrightarrow> bit (coord ax q) n"
    "bit (morton_key b r) (D * n + axis_rank ax) \<longleftrightarrow> bit (coord ax r) n"
    unfolding D_def bit_morton_key_at[OF wf ax] using n by simp_all
  with H(2) above show ?thesis unfolding D_def by blast
qed

lemma morton_less:
  assumes wf: "wf_build b"
    and e1: "p4est_quadrant_is_extended b q" and e2: "p4est_quadrant_is_extended b r"
    and ns: "\<not> same_coords b q r"
  shows "shifted_coord b (coord (compare_axis b q r) q) < shifted_coord b (coord (compare_axis b q r) r)
      \<longleftrightarrow> morton_key b q < morton_key b r"
    and "morton_key b q \<noteq> morton_key b r"
proof -
  define ax where "ax = compare_axis b q r"
  have d: "decides b q r ax"
    unfolding decides_compare_axis[OF ns] ax_def ..
  then have ax: "ax \<in> axes b" by (simp add: decides_def)
  from decides_key[OF wf e1 e2 d] obtain n
    where k: "kdiff (maxl b) (coord ax q) (coord ax r) n"
      and bq: "bit (morton_key b q) (P4EST_DIM b * n + axis_rank ax) \<longleftrightarrow> bit (coord ax q) n"
      and br: "bit (morton_key b r) (P4EST_DIM b * n + axis_rank ax) \<longleftrightarrow> bit (coord ax r) n"
      and ab: "\<forall>m>P4EST_DIM b * n + axis_rank ax. bit (morton_key b q) m = bit (morton_key b r) m"
    by blast
  from k have ne: "bit (morton_key b q) (P4EST_DIM b * n + axis_rank ax) \<noteq>
      bit (morton_key b r) (P4EST_DIM b * n + axis_rank ax)"
    unfolding bq br by (simp add: kdiff_def)
  then show "morton_key b q \<noteq> morton_key b r" by auto
  show "shifted_coord b (coord (compare_axis b q r) q) < shifted_coord b (coord (compare_axis b q r) r)
      \<longleftrightarrow> morton_key b q < morton_key b r"
    unfolding ax_def[symmetric]
      kdiff_shifted[OF wf extended_coord(1)[OF wf e1 ax] extended_coord(1)[OF wf e2 ax] k]
      word_less_iff_top_bit[OF ne ab] br ..
qed


lemma same_coords_key:
  assumes wf: "wf_build b" and s: "same_coords b q r"
  shows "morton_key b q = morton_key b r"
proof (rule bit_word_eqI)
  fix j
  have "axis_of (j mod P4EST_DIM b) \<in> axes b"
    using dim_pos[of b] by (intro axis_of_axes(1)) simp
  with s have "coord (axis_of (j mod P4EST_DIM b)) q = coord (axis_of (j mod P4EST_DIM b)) r"
    unfolding same_coords_def by blast
  then show "bit (morton_key b q) j \<longleftrightarrow> bit (morton_key b r) j"
    unfolding bit_morton_key[OF wf] by simp
qed

lemma compare_extended:
  assumes wf: "wf_build b"
    and e1: "p4est_quadrant_is_extended b q" and e2: "p4est_quadrant_is_extended b r"
  shows "p4est_quadrant_compare b q r =
    Some (if same_coords b q r then sint (q_level q) - sint (q_level r)
          else if morton_key b q < morton_key b r then - 1 else 1)"
proof (cases "same_coords b q r")
  case True
  with e1 e2 show ?thesis by (simp add: compare_unfold comparable_def)
next
  case False
  let ?ax = "compare_axis b q r"
  let ?d = "shifted_coord b (coord ?ax q) - shifted_coord b (coord ?ax r)"
  note ml = morton_less[OF wf e1 e2 False]
  have ne: "shifted_coord b (coord ?ax q) \<noteq> shifted_coord b (coord ?ax r)"
  proof
    assume eq: "shifted_coord b (coord ?ax q) = shifted_coord b (coord ?ax r)"
    have d: "decides b q r ?ax" unfolding decides_compare_axis[OF False] ..
    then have ax: "?ax \<in> axes b" by (simp add: decides_def)
    from d have "coord ?ax q \<noteq> coord ?ax r"
      by (auto simp add: decides_def highest_differing_bit_def)
    with ax have nr: "\<not> same_coords b r q" unfolding same_coords_def by metis
    have cr: "compare_axis b r q = ?ax"
      by (simp add: compare_axis_def log2_diff_def xor.commute)
    from ml(1) eq have 1: "\<not> morton_key b q < morton_key b r" by simp
    from morton_less(1)[OF wf e2 e1 nr] eq have 2: "\<not> morton_key b r < morton_key b q"
      unfolding cr by simp
    from 1 2 ml(2) show False by simp
  qed
  have "sgn ?d = (if morton_key b q < morton_key b r then - 1 else 1)"
    using ml(1) ne by (auto simp add: sgn_if)
  then show ?thesis
    using e1 e2 False by (simp add: compare_unfold comparable_def compare_sign_operands[OF wf])
qed

section \<open>Linear ids of the same level\<close>

lemma drop_bit_less_imp:
  fixes u v :: "'a::len word"
  assumes "drop_bit k u < drop_bit k v"
  shows "u < v"
proof (rule ccontr)
  assume "\<not> u < v"
  then have "unat v \<le> unat u" by (simp add: word_less_nat_alt)
  then have "drop_bit k (unat v) \<le> drop_bit k (unat u)"
    by (simp add: drop_bit_eq_div div_le_mono)
  then have "\<not> unat (drop_bit k u) < unat (drop_bit k v)"
    by (simp only: unat_drop_bit_eq not_less)
  then have "\<not> drop_bit k u < drop_bit k v"
    unfolding word_less_nat_alt .
  with assms show False by simp
qed

lemma drop_bit_mono:
  fixes u v :: "'a::len word"
  assumes "u \<le> v"
  shows "drop_bit k u \<le> drop_bit k v"
  using drop_bit_less_imp[of k v u] assms by (auto simp add: not_less[symmetric])

lemma drop_bit_strict_mono:
  fixes u v :: "'a::len word"
  assumes "u < v" "take_bit k u = 0" "take_bit k v = 0"
  shows "drop_bit k u < drop_bit k v"
proof (rule ccontr)
  assume "\<not> drop_bit k u < drop_bit k v"
  with drop_bit_mono[of u v k] assms(1) have "drop_bit k u = drop_bit k v" by simp
  then have "push_bit k (drop_bit k u) + take_bit k u = push_bit k (drop_bit k v) + take_bit k v"
    using assms(2,3) by simp
  then have "u = v" by (simp only: bits_ident)
  with assms(1) show False by simp
qed

lemma morton_key_low:
  assumes wf: "wf_build b" and e: "p4est_quadrant_is_extended b q"
  shows "take_bit (P4EST_DIM b * (maxl b - lev q)) (morton_key b q) = 0"
proof (rule bit_word_eqI)
  fix j
  have "\<not> bit (coord (axis_of (j mod P4EST_DIM b)) q) (j div P4EST_DIM b)"
    if "j < P4EST_DIM b * (maxl b - lev q)"
  proof -
    have ax: "axis_of (j mod P4EST_DIM b) \<in> axes b"
      using dim_pos[of b] by (intro axis_of_axes(1)) simp
    from that have "j div P4EST_DIM b < maxl b - lev q"
      using dim_pos[of b] by (simp add: div_less_iff_less_mult mult.commute)
    with extended_coord(2)[OF wf e ax] show ?thesis
      unfolding take_bit_eq_0_bits by blast
  qed
  then show "bit (take_bit (P4EST_DIM b * (maxl b - lev q)) (morton_key b q)) j \<longleftrightarrow> bit (0::64 word) j"
    unfolding bit_take_bit_iff bit_morton_key[OF wf] by auto
qed

section \<open>The last descendant of an ancestor\<close>

lemma ball_axes:
  "(\<forall>ax\<in>axes b. P ax) \<longleftrightarrow> P X_axis \<and> P Y_axis \<and> (P4_TO_P8 b \<longrightarrow> P Z_axis)"
  by (simp add: axes_def)

definition last_from :: "build \<Rightarrow> p4est_quadrant_t \<Rightarrow> nat \<Rightarrow> nat \<Rightarrow> bool" where
  "last_from b q j l \<longleftrightarrow>
     (\<forall>ax\<in>axes b. \<forall>n. maxl b - j \<le> n \<and> n < maxl b - l \<longrightarrow> bit (coord ax q) n)"

lemma child_id_last:
  assumes wf: "wf_build b" and e: "p4est_quadrant_is_extended b a" and l: "0 < lev a"
  shows "\<exists>cid. p4est_quadrant_child_id b a = Some cid \<and>
    (cid = P4EST_CHILDREN b - 1 \<longleftrightarrow> (\<forall>ax\<in>axes b. bit (coord ax a) (maxl b - lev a)))"
proof -
  note M = wf_buildD[OF wf]
  note L = extended_levelD[OF wf e]
  define k where "k = maxl b - lev a"
  have len: "P4EST_QUADRANT_LEN b (sint (q_level a)) = 2 ^ k"
    using quadrant_len_eq[OF wf L(1)] by (simp add: lev_def k_def)
  have bt: "c AND 2 ^ k \<noteq> 0 \<longleftrightarrow> bit c k" for c :: "32 word"
    by (simp add: and_exp_eq_0_iff_not_bit)
  have a: "0 \<le> sint (q_level a) \<and> sint (q_level a) \<le> P4EST_MAXLEVEL b" "sint (q_level a) \<noteq> 0"
    using L(1,2) l by (simp_all add: lev_def)
  show ?thesis
    unfolding p4est_quadrant_child_id_def p4est_quadrant_ancestor_id_def Let_def
      P4EST_ASSERT_bind len bt ball_axes k_def[symmetric]
    using e a by (simp add: P4EST_CHILDREN_def)
qed


lemma coord_anc:
  assumes "ax \<in> axes b"
  shows "coord ax (anc b q l) = coord ax q AND NOT (mask (maxl b - l))"
  using assms by (cases ax) (auto simp add: axes_def anc_sel split: if_splits)

lemma last_from_refl: "last_from b q l l"
  by (auto simp add: last_from_def)

lemma last_from_Suc:
  assumes "l \<le> j" "Suc j \<le> maxl b"
  shows "last_from b q (Suc j) l \<longleftrightarrow>
    (\<forall>ax\<in>axes b. bit (coord ax q) (maxl b - Suc j)) \<and> last_from b q j l"
proof -
  have eq: "maxl b - Suc j \<le> n \<and> n < maxl b - l \<longleftrightarrow>
      n = maxl b - Suc j \<or> (maxl b - j \<le> n \<and> n < maxl b - l)" for n
    using assms by auto
  show ?thesis unfolding last_from_def eq by auto
qed

lemma next_loop_anc:
  assumes wf: "wf_build b" and e: "p4est_quadrant_is_extended b q"
    and r: "sint (q_level r) = int l" and d: "l + d \<le> lev q"
  shows "is_next_D_loop b (anc b q (l + d)) r =
    Some (if last_from b q (l + d) l then Some (anc b q l) else None)"
  using d
proof (induction d)
  case 0
  then have "l \<le> maxl b" using extended_levelD(5)[OF wf e] by simp
  from anc_level(1)[OF wf this, of q] show ?case
    by (simp add: is_next_D_loop.simps[of b "anc b q l" r] r last_from_refl)
next
  case (Suc d)
  define j where "j = Suc (l + d)"
  from Suc.prems have j: "0 < j" "j \<le> lev q" "l < j" "j - 1 = l + d" "l \<le> l + d"
    by (simp_all add: j_def)
  from j(2) extended_levelD(5)[OF wf e] have jm: "j \<le> maxl b" by simp
  note al = anc_level[OF wf jm, of q]
  note ea = anc_extended[OF wf e j(2)]
  from child_id_last[OF wf ea] j(1) al(2) obtain cid
    where cid: "p4est_quadrant_child_id b (anc b q j) = Some cid"
      and last: "cid = P4EST_CHILDREN b - 1 \<longleftrightarrow>
        (\<forall>ax\<in>axes b. bit (coord ax (anc b q j)) (maxl b - j))"
    by auto
  have "(\<forall>ax\<in>axes b. bit (coord ax (anc b q j)) (maxl b - j)) \<longleftrightarrow>
      (\<forall>ax\<in>axes b. bit (coord ax q) (maxl b - j))"
    by (simp add: coord_anc bit_and_not_mask)
  note last' = last[unfolded this]
  note lf = last_from_Suc[OF j(5) jm[unfolded j_def], of q, folded j_def]
  have gt: "sint (q_level (anc b q j)) > sint (q_level r)"
    using al(1) r j(3) by simp
  note pa = parent_anc[OF wf e j(1,2), unfolded j(4)]
  from Suc.prems have ih: "is_next_D_loop b (anc b q (l + d)) r =
    Some (if last_from b q (l + d) l then Some (anc b q l) else None)"
    by (intro Suc.IH) simp
  have "is_next_D_loop b (anc b q j) r =
      Some (if last_from b q j l then Some (anc b q l) else None)"
    unfolding is_next_D_loop.simps[of b "anc b q j" r] lf
    using gt cid last' pa ih by simp
  then show ?case unfolding j_def by simp
qed

lemma next_loop:
  assumes wf: "wf_build b" and e: "p4est_quadrant_is_extended b q"
    and r: "sint (q_level r) = int l" and l: "l \<le> lev q"
  shows "is_next_D_loop b q r =
    Some (if last_from b q (lev q) l then Some (anc b q l) else None)"
proof -
  from l have "l + (lev q - l) \<le> lev q" by simp
  from next_loop_anc[OF wf e r this] l show ?thesis
    by (simp add: anc_self[OF wf e])
qed

lemma pow2_diff_mask:
  assumes "lo \<le> hi"
  shows "(2::32 word) ^ hi - 2 ^ lo = push_bit lo (mask (hi - lo))"
proof -
  from assms have "(2::32 word) ^ hi = 2 ^ (hi - lo) * 2 ^ lo"
    by (simp flip: power_add)
  then show ?thesis
    by (simp add: push_bit_eq_mult mask_eq_exp_minus_1 algebra_simps)
qed

lemma and_pow2_diff:
  fixes c :: "32 word"
  assumes "lo \<le> hi" "hi \<le> 32"
  shows "c AND (2 ^ hi - 2 ^ lo) = 2 ^ hi - 2 ^ lo \<longleftrightarrow> (\<forall>n. lo \<le> n \<and> n < hi \<longrightarrow> bit c n)"
proof -
  have m: "bit (2 ^ hi - 2 ^ lo :: 32 word) n \<longleftrightarrow> lo \<le> n \<and> n < hi" for n
    unfolding pow2_diff_mask[OF assms(1)] using assms
    by (auto simp add: bit_push_bit_iff bit_mask_iff)
  show ?thesis
  proof
    assume eq: "c AND (2 ^ hi - 2 ^ lo) = 2 ^ hi - 2 ^ lo"
    show "\<forall>n. lo \<le> n \<and> n < hi \<longrightarrow> bit c n"
    proof (intro allI impI)
      fix n
      assume "lo \<le> n \<and> n < hi"
      then have "bit (c AND (2 ^ hi - 2 ^ lo)) n" unfolding eq m .
      then show "bit c n" by (simp add: bit_and_iff)
    qed
  next
    assume "\<forall>n. lo \<le> n \<and> n < hi \<longrightarrow> bit c n"
    then show "c AND (2 ^ hi - 2 ^ lo) = 2 ^ hi - 2 ^ lo"
      by (intro bit_word_eqI) (auto simp add: bit_and_iff m)
  qed
qed

lemma next_mask_test:
  assumes wf: "wf_build b"
    and eq: "p4est_quadrant_is_extended b q" and er: "p4est_quadrant_is_extended b r"
    and l: "lev r < lev q"
  shows "(q_x q AND (P4EST_QUADRANT_LEN b (sint (q_level r)) - P4EST_QUADRANT_LEN b (sint (q_level q)))
          \<noteq> P4EST_QUADRANT_LEN b (sint (q_level r)) - P4EST_QUADRANT_LEN b (sint (q_level q)) \<or>
      q_y q AND (P4EST_QUADRANT_LEN b (sint (q_level r)) - P4EST_QUADRANT_LEN b (sint (q_level q)))
          \<noteq> P4EST_QUADRANT_LEN b (sint (q_level r)) - P4EST_QUADRANT_LEN b (sint (q_level q)) \<or>
      (P4_TO_P8 b \<and>
       q_z q AND (P4EST_QUADRANT_LEN b (sint (q_level r)) - P4EST_QUADRANT_LEN b (sint (q_level q)))
          \<noteq> P4EST_QUADRANT_LEN b (sint (q_level r)) - P4EST_QUADRANT_LEN b (sint (q_level q))))
    \<longleftrightarrow> \<not> last_from b q (lev q) (lev r)"
proof -
  note M = wf_buildD[OF wf]
  note Q = extended_levelD[OF wf eq] and R = extended_levelD[OF wf er]
  have len: "P4EST_QUADRANT_LEN b (sint (q_level q)) = 2 ^ (maxl b - lev q)"
    "P4EST_QUADRANT_LEN b (sint (q_level r)) = 2 ^ (maxl b - lev r)"
    using quadrant_len_eq[OF wf Q(1)] quadrant_len_eq[OF wf R(1)] by (simp_all add: lev_def)
  have le: "maxl b - lev q \<le> maxl b - lev r" "maxl b - lev r \<le> 32"
    using l M(2) by simp_all
  show ?thesis
    unfolding len and_pow2_diff[OF le] last_from_def ball_axes by auto
qed

lemma linear_id_anc:
  assumes wf: "wf_build b" and e: "p4est_quadrant_is_extended b q" and l: "l \<le> lev q"
  shows "p4est_quadrant_linear_id b (anc b q l) (int l) = p4est_quadrant_linear_id b q (int l)"
proof -
  from l extended_levelD(5)[OF wf e] have lm: "l \<le> maxl b" by simp
  note ea = anc_extended[OF wf e l]
  note al = anc_level[OF wf lm, of q]
  have "drop_bit (P4EST_DIM b * (maxl b - l)) (morton_key b (anc b q l)) =
      drop_bit (P4EST_DIM b * (maxl b - l)) (morton_key b q)"
  proof (rule bit_word_eqI)
    fix j
    let ?m = "P4EST_DIM b * (maxl b - l) + j"
    have ax: "axis_of (?m mod P4EST_DIM b) \<in> axes b"
      using dim_pos[of b] by (intro axis_of_axes(1)) simp
    have "?m div P4EST_DIM b = (maxl b - l) + j div P4EST_DIM b"
      using dim_pos[of b] by simp
    then have "maxl b - l \<le> ?m div P4EST_DIM b" by simp
    then show "bit (drop_bit (P4EST_DIM b * (maxl b - l)) (morton_key b (anc b q l))) j \<longleftrightarrow>
        bit (drop_bit (P4EST_DIM b * (maxl b - l)) (morton_key b q)) j"
      unfolding bit_drop_bit_eq comp_def bit_morton_key[OF wf] coord_anc[OF ax] bit_and_not_mask
      by simp
  qed
  then show ?thesis
    using linear_id_eq[OF wf ea, of l] linear_id_eq[OF wf e l] al(2) by simp
qed

lemma linear_id_no_wrap:
  fixes u v :: "64 word"
  assumes wf: "wf_build b" and l: "l < maxl b"
    and s: "drop_bit (P4EST_DIM b * (maxl b - l)) u + 1 = drop_bit (P4EST_DIM b * (maxl b - l)) v"
  shows "drop_bit (P4EST_DIM b * (maxl b - l)) u < drop_bit (P4EST_DIM b * (maxl b - l)) v"
proof -
  define k where "k = P4EST_DIM b * (maxl b - l)"
  from l have "1 \<le> maxl b - l" by simp
  then have "P4EST_DIM b * 1 \<le> k" unfolding k_def by (rule mult_le_mono2)
  then have k: "1 \<le> k" using dim_pos[of b] by simp
  have "\<not> bit (drop_bit k u) 63"
    using k bit_imp_le_length[of u "k + 63"] by (auto simp add: bit_drop_bit_eq)
  then have "drop_bit k u \<noteq> - 1" by auto
  then have "drop_bit k u < drop_bit k u + 1"
    using inc_less_eq_self_iff_eq[of "drop_bit k u"] by (simp add: not_le)
  with s show ?thesis
    unfolding k_def by simp
qed

lemma next_id_before:
  assumes wf: "wf_build b"
    and eq: "p4est_quadrant_is_extended b q" and er: "p4est_quadrant_is_extended b r"
    and l: "l < maxl b"
    and s: "drop_bit (P4EST_DIM b * (maxl b - l)) (morton_key b q) + 1 =
            drop_bit (P4EST_DIM b * (maxl b - l)) (morton_key b r)"
  shows "p4est_quadrant_compare b q r = Some (- 1)"
proof -
  from linear_id_no_wrap[OF wf l s] have lt: "morton_key b q < morton_key b r"
    by (rule drop_bit_less_imp)
  then have "morton_key b q \<noteq> morton_key b r" by simp
  with same_coords_key[OF wf, of q r] have "\<not> same_coords b q r" by blast
  with lt show ?thesis unfolding compare_extended[OF wf eq er] by simp
qed

lemma is_next_D_loop_stop:
  assumes "\<not> sint (q_level a) > sint (q_level r)"
  shows "is_next_D_loop b a r = Some (Some a)"
  using assms by (simp add: is_next_D_loop.simps[of b a r])

section \<open>Clamping nodes\<close>

definition clampc :: "nat \<Rightarrow> 32 word \<Rightarrow> 32 word" where
  "clampc M c = (if c = 2 ^ M then 2 ^ M - 1 else c)"

lemma clamp_coord:
  fixes c :: "32 word"
  assumes M: "1 \<le> M" "M \<le> 30"
    and c: "0 \<le>s c" "c \<le>s 2 ^ M" "c AND 1 = 0"
  shows "0 \<le>s clampc M c" "clampc M c \<le>s 2 ^ M - 1"
    "clampc M c AND 1 = 0 \<or> clampc M c = 2 ^ M - 1"
    "(clampc M c = 2 ^ M - 1 \<longrightarrow> c = 2 ^ M) \<and> (clampc M c \<noteq> 2 ^ M - 1 \<longrightarrow> c = clampc M c)"
proof -
  have p: "(0::int) \<le> 2 ^ M - 1" by simp
  show "0 \<le>s clampc M c"
    using c(1) p unfolding clampc_def word_sle_eq by (simp add: sint_pow2_minus1[OF M(2)])
  show "clampc M c \<le>s 2 ^ M - 1"
  proof (cases "c = 2 ^ M")
    case True
    then show ?thesis by (simp add: clampc_def)
  next
    case False
    then have "sint c \<noteq> sint ((2::32 word) ^ M)"
      using signed_word_eqI[where 'a=int, of c "2 ^ M"] by blast
    with c(2) have "sint c < 2 ^ M"
      unfolding word_sle_eq sint_pow2[OF M(2)] by simp
    with False show ?thesis
      unfolding clampc_def word_sle_eq sint_pow2_minus1[OF M(2)] by simp
  qed
  show "clampc M c AND 1 = 0 \<or> clampc M c = 2 ^ M - 1"
    using c(3) by (simp add: clampc_def)
  have "c \<noteq> 2 ^ M - 1"
    using root_len_minus1_odd[OF M] c(3) by auto
  then show "(clampc M c = 2 ^ M - 1 \<longrightarrow> c = 2 ^ M) \<and> (clampc M c \<noteq> 2 ^ M - 1 \<longrightarrow> c = clampc M c)"
    by (simp add: clampc_def)
qed

lemma is_node_iff:
  assumes "wf_build b"
  shows "p4est_quadrant_is_node b q inside \<longleftrightarrow>
    sint (q_level q) = P4EST_MAXLEVEL b \<and>
    (0 \<le>s q_x q \<and> q_x q \<le>s 2 ^ maxl b - (if inside then 1 else 0) \<and>
      (q_x q AND 1 = 0 \<or> inside \<and> q_x q = 2 ^ maxl b - 1)) \<and>
    (0 \<le>s q_y q \<and> q_y q \<le>s 2 ^ maxl b - (if inside then 1 else 0) \<and>
      (q_y q AND 1 = 0 \<or> inside \<and> q_y q = 2 ^ maxl b - 1)) \<and>
    (P4_TO_P8 b \<longrightarrow>
      (0 \<le>s q_z q \<and> q_z q \<le>s 2 ^ maxl b - (if inside then 1 else 0) \<and>
      (q_z q AND 1 = 0 \<or> inside \<and> q_z q = 2 ^ maxl b - 1)))"
  unfolding p4est_quadrant_is_node_def node_coord_ok_def root_len_eq P4EST_QMAXLEVEL_def
  by auto

lemma if_if_None:
  "(if a then (if c then x else None) else None) = (if a \<and> c then x else None)"
  by simp

definition clamp_res :: "build \<Rightarrow> p4est_quadrant_t \<Rightarrow> p4est_quadrant_t \<Rightarrow> p4est_quadrant_t" where
  "clamp_res b n r =
     (let r = r\<lparr>q_x := (if q_x n = P4EST_ROOT_LEN b then P4EST_ROOT_LEN b - 1 else q_x n)\<rparr>;
          r = r\<lparr>q_y := (if q_y n = P4EST_ROOT_LEN b then P4EST_ROOT_LEN b - 1 else q_y n)\<rparr>;
          r = (if P4_TO_P8 b
              then r\<lparr>q_z := (if q_z n = P4EST_ROOT_LEN b then P4EST_ROOT_LEN b - 1 else q_z n)\<rparr>
              else r)
      in r\<lparr>q_level := word_of_int (P4EST_MAXLEVEL b)\<rparr>)"

lemma clamp_unfold:
  "p4est_node_clamp_inside b n r =
     (if p4est_quadrant_is_node b n False \<and> p4est_quadrant_is_node b (clamp_res b n r) True
      then Some (clamp_res b n r) else None)"
  unfolding p4est_node_clamp_inside_def clamp_res_def Let_def P4EST_ASSERT_bind
  by (rule if_if_None)

lemma clamp_res_sel:
  "q_x (clamp_res b n r) = clampc (maxl b) (q_x n)"
  "q_y (clamp_res b n r) = clampc (maxl b) (q_y n)"
  "P4_TO_P8 b \<Longrightarrow> q_z (clamp_res b n r) = clampc (maxl b) (q_z n)"
  "q_level (clamp_res b n r) = word_of_int (P4EST_MAXLEVEL b)"
  by (simp_all add: clamp_res_def Let_def clampc_def root_len_eq)

definition unclamp_res :: "build \<Rightarrow> p4est_quadrant_t \<Rightarrow> p4est_quadrant_t" where
  "unclamp_res b n =
     (let n = (if q_x n = P4EST_ROOT_LEN b - 1 then n\<lparr>q_x := P4EST_ROOT_LEN b\<rparr> else n);
          n = (if q_y n = P4EST_ROOT_LEN b - 1 then n\<lparr>q_y := P4EST_ROOT_LEN b\<rparr> else n)
      in (if P4_TO_P8 b
          then (if q_z n = P4EST_ROOT_LEN b - 1 then n\<lparr>q_z := P4EST_ROOT_LEN b\<rparr> else n)
          else n))"

lemma unclamp_unfold:
  "p4est_node_unclamp b n =
     (if p4est_quadrant_is_node b n True \<and> p4est_quadrant_is_node b (unclamp_res b n) False
      then Some (unclamp_res b n) else None)"
  unfolding p4est_node_unclamp_def unclamp_res_def Let_def P4EST_ASSERT_bind
  by (rule if_if_None)

lemma unclamp_res_sel:
  "q_x (unclamp_res b n) = (if q_x n = 2 ^ maxl b - 1 then 2 ^ maxl b else q_x n)"
  "q_y (unclamp_res b n) = (if q_y n = 2 ^ maxl b - 1 then 2 ^ maxl b else q_y n)"
  "P4_TO_P8 b \<Longrightarrow> q_z (unclamp_res b n) = (if q_z n = 2 ^ maxl b - 1 then 2 ^ maxl b else q_z n)"
  "q_level (unclamp_res b n) = q_level n"
  by (simp_all add: unclamp_res_def Let_def root_len_eq)

text \<open>
  C10: for every node \<open>n\<close> that satisfies unclamped node validity,
  \<^verbatim>\<open>p4est_node_clamp_inside\<close> returns a node (no assertion fails) that satisfies
  clamped node validity, and \<^verbatim>\<open>p4est_node_unclamp\<close> applied to that node returns
  a node with the coordinates and the level of \<open>n\<close>.
\<close>

theorem clamp_unclamp:
  assumes wf: "wf_build b" and n: "p4est_quadrant_is_node b n False"
  shows "\<exists>r'. p4est_node_clamp_inside b n r = Some r' \<and>
           p4est_quadrant_is_node b r' True \<and>
           (\<exists>n'. p4est_node_unclamp b r' = Some n' \<and>
              q_x n' = q_x n \<and> q_y n' = q_y n \<and> (P4_TO_P8 b \<longrightarrow> q_z n' = q_z n) \<and>
              q_level n' = q_level n \<and> p4est_quadrant_is_node b n' False)"
proof -
  note M = wf_buildD[OF wf]
  define r' where "r' = clamp_res b n r"
  define n' where "n' = unclamp_res b r'"
  from n have lev: "sint (q_level n) = P4EST_MAXLEVEL b"
    and x: "0 \<le>s q_x n" "q_x n \<le>s 2 ^ maxl b" "q_x n AND 1 = 0"
    and y: "0 \<le>s q_y n" "q_y n \<le>s 2 ^ maxl b" "q_y n AND 1 = 0"
    and z: "P4_TO_P8 b \<Longrightarrow> 0 \<le>s q_z n" "P4_TO_P8 b \<Longrightarrow> q_z n \<le>s 2 ^ maxl b"
      "P4_TO_P8 b \<Longrightarrow> q_z n AND 1 = 0"
    unfolding is_node_iff[OF wf] by simp_all
  note cx = clamp_coord[OF M(1,2) x]
  note cy = clamp_coord[OF M(1,2) y]
  note cz = clamp_coord[OF M(1,2) z]
  have lev': "sint (word_of_int (P4EST_MAXLEVEL b) :: 8 word) = P4EST_MAXLEVEL b"
    using M by (intro sint_level_of_int) simp_all
  have lev_eq: "(word_of_int (P4EST_MAXLEVEL b) :: 8 word) = q_level n"
    using lev' lev by (intro signed_word_eqI[where 'a=int]) simp
  have node': "p4est_quadrant_is_node b r' True"
    unfolding is_node_iff[OF wf] r'_def using cx(1-3) cy(1-3) cz(1-3) lev'
    by (simp add: clamp_res_sel)
  have clamp: "p4est_node_clamp_inside b n r = Some r'"
    using n node' unfolding clamp_unfold r'_def by simp
  have sel: "q_x n' = q_x n" "q_y n' = q_y n" "P4_TO_P8 b \<Longrightarrow> q_z n' = q_z n"
      "q_level n' = q_level n"
    using cx(4) cy(4) cz(4) lev_eq
    by (auto simp: n'_def r'_def unclamp_res_sel clamp_res_sel)
  have node'': "p4est_quadrant_is_node b n' False"
    using n unfolding is_node_iff[OF wf] by (simp add: sel)
  have unclamp: "p4est_node_unclamp b r' = Some n'"
    using node' node'' unfolding unclamp_unfold n'_def by simp
  show ?thesis
    using clamp node' unclamp node'' sel by simp
qed


theorem clamp_unclamp_witness:
  "p4est_quadrant_is_node build_2d
      \<lparr>q_x = 1073741824, q_y = 0, q_z = 0, q_level = 30\<rparr> False \<and>
   (\<exists>r'. p4est_node_clamp_inside build_2d
            \<lparr>q_x = 1073741824, q_y = 0, q_z = 0, q_level = 30\<rparr>
            \<lparr>q_x = 0, q_y = 0, q_z = 0, q_level = 0\<rparr> = Some r' \<and>
        (\<exists>n'. p4est_node_unclamp build_2d r' = Some n' \<and> q_x n' = 1073741824 \<and> q_y n' = 0))"
proof -
  have n: "p4est_quadrant_is_node build_2d
      \<lparr>q_x = 1073741824, q_y = 0, q_z = 0, q_level = 30\<rparr> False"
    by (simp add: p4est_quadrant_is_node_def build_2d_def node_coord_ok_def
        P4EST_ROOT_LEN_def P4EST_QMAXLEVEL_def word_sle_eq)
  from clamp_unclamp[OF wf_build_2d n, of "\<lparr>q_x = 0, q_y = 0, q_z = 0, q_level = 0\<rparr>"] n
  show ?thesis by auto
qed

section \<open>Safety of the parent\<close>

text \<open>
  C8: \<^verbatim>\<open>p4est_quadrant_parent\<close> aborts on a quadrant of level \<open>0\<close> (its
  precondition \<open>level > 0\<close> is asserted), and for every extended quadrant of level
  \<open>> 0\<close> it returns, without a failed assertion, the quadrant whose coordinates are
  those of the input with the bit of the input's level (bit \<open>MAXLEVEL - level\<close>)
  cleared and whose level is one less; this parent is again extended.
\<close>

theorem parent_safe:
  assumes wf: "wf_build b"
  shows "(sint (q_level q) = 0 \<longrightarrow> p4est_quadrant_parent b q r = None) \<and>
    (p4est_quadrant_is_extended b q \<and> 0 < sint (q_level q) \<longrightarrow>
      (\<exists>r'. p4est_quadrant_parent b q r = Some r' \<and>
         (\<forall>n. bit (q_x r') n \<longleftrightarrow> bit (q_x q) n \<and> n \<noteq> nat (P4EST_MAXLEVEL b - sint (q_level q))) \<and>
         (\<forall>n. bit (q_y r') n \<longleftrightarrow> bit (q_y q) n \<and> n \<noteq> nat (P4EST_MAXLEVEL b - sint (q_level q))) \<and>
         (P4_TO_P8 b \<longrightarrow>
           (\<forall>n. bit (q_z r') n \<longleftrightarrow> bit (q_z q) n \<and> n \<noteq> nat (P4EST_MAXLEVEL b - sint (q_level q)))) \<and>
         sint (q_level r') = sint (q_level q) - 1 \<and>
         p4est_quadrant_is_extended b r'))"
proof (intro conjI impI)
  assume "sint (q_level q) = 0"
  then show "p4est_quadrant_parent b q r = None"
    by (simp add: parent_unfold)
next
  assume a: "p4est_quadrant_is_extended b q \<and> 0 < sint (q_level q)"
  then have e: "p4est_quadrant_is_extended b q" and l: "0 < sint (q_level q)" by simp_all
  have len: "P4EST_QUADRANT_LEN b (sint (q_level q)) =
      2 ^ nat (P4EST_MAXLEVEL b - sint (q_level q))"
    by (simp add: P4EST_QUADRANT_LEN_def)
  have p: "p4est_quadrant_parent b q r = Some (parent_res b q r)"
    by (rule parent_Some[OF wf e l])
  have ex: "p4est_quadrant_is_extended b (parent_res b q r)"
    by (rule parent_res_extended(1)[OF wf e l])
  have lv: "sint (q_level (parent_res b q r)) = sint (q_level q) - 1"
    using sint_level_pred[OF l] by (simp add: parent_res_sel)
  have bx: "\<forall>n. bit (q_x (parent_res b q r)) n \<longleftrightarrow>
      bit (q_x q) n \<and> n \<noteq> nat (P4EST_MAXLEVEL b - sint (q_level q))"
    by (simp add: parent_res_sel len bit_and_not_pow2)
  have by': "\<forall>n. bit (q_y (parent_res b q r)) n \<longleftrightarrow>
      bit (q_y q) n \<and> n \<noteq> nat (P4EST_MAXLEVEL b - sint (q_level q))"
    by (simp add: parent_res_sel len bit_and_not_pow2)
  have bz: "P4_TO_P8 b \<longrightarrow> (\<forall>n. bit (q_z (parent_res b q r)) n \<longleftrightarrow>
      bit (q_z q) n \<and> n \<noteq> nat (P4EST_MAXLEVEL b - sint (q_level q)))"
    by (simp add: parent_res_sel len bit_and_not_pow2)
  show "\<exists>r'. p4est_quadrant_parent b q r = Some r' \<and>
         (\<forall>n. bit (q_x r') n \<longleftrightarrow> bit (q_x q) n \<and> n \<noteq> nat (P4EST_MAXLEVEL b - sint (q_level q))) \<and>
         (\<forall>n. bit (q_y r') n \<longleftrightarrow> bit (q_y q) n \<and> n \<noteq> nat (P4EST_MAXLEVEL b - sint (q_level q))) \<and>
         (P4_TO_P8 b \<longrightarrow>
           (\<forall>n. bit (q_z r') n \<longleftrightarrow> bit (q_z q) n \<and> n \<noteq> nat (P4EST_MAXLEVEL b - sint (q_level q)))) \<and>
         sint (q_level r') = sint (q_level q) - 1 \<and>
         p4est_quadrant_is_extended b r'"
    by (intro exI[of _ "parent_res b q r"] conjI p ex lv bx by' bz)
qed

theorem parent_safe_witness:
  "p4est_quadrant_parent build_2d \<lparr>q_x = 0, q_y = 0, q_z = 0, q_level = 0\<rparr> local_quadrant = None \<and>
   (\<exists>r'. p4est_quadrant_parent build_2d
       \<lparr>q_x = 536870912, q_y = 0, q_z = 0, q_level = 1\<rparr> local_quadrant = Some r' \<and>
     sint (q_level r') = 0 \<and> p4est_quadrant_is_extended build_2d r')"
  using parent_safe[OF wf_build_2d, of "\<lparr>q_x = 0, q_y = 0, q_z = 0, q_level = 0\<rparr>" local_quadrant]
    parent_safe[OF wf_build_2d, of "\<lparr>q_x = 536870912, q_y = 0, q_z = 0, q_level = 1\<rparr>"
      local_quadrant] extended_2d_half
  by auto

section \<open>Ancestor test\<close>

lemma signed_drop_bit_eq_0_iff:
  fixes w :: "32 word"
  assumes "k \<le> 31"
  shows "signed_drop_bit k w = 0 \<longleftrightarrow> (\<forall>n\<ge>k. \<not> bit w n)"
proof
  assume h: "signed_drop_bit k w = 0"
  show "\<forall>n\<ge>k. \<not> bit w n"
  proof (intro allI impI)
    fix n assume n: "k \<le> n"
    show "\<not> bit w n"
    proof (cases "n < 32")
      case True
      from h have "\<not> bit (signed_drop_bit k w) (n - k)" by simp
      then show ?thesis
        using True n by (simp add: bit_signed_drop_bit_iff split: if_splits)
    next
      case False
      then show ?thesis by (auto dest: bit_imp_le_length)
    qed
  qed
next
  assume h: "\<forall>n\<ge>k. \<not> bit w n"
  show "signed_drop_bit k w = 0"
  proof (rule bit_word_eqI)
    fix n assume "n < LENGTH(32)"
    have "\<not> bit w 31" using h assms by simp
    moreover have "\<not> bit w (k + n)" using h by simp
    ultimately show "bit (signed_drop_bit k w) n \<longleftrightarrow> bit (0::32 word) n"
      by (simp add: bit_signed_drop_bit_iff)
  qed
qed

lemma shifted_xor_eq_0_iff:
  fixes a c :: "32 word"
  assumes "k \<le> 31"
  shows "signed_drop_bit k (a XOR c) = 0 \<longleftrightarrow> (\<forall>n\<ge>k. bit c n = bit a n)"
  unfolding signed_drop_bit_eq_0_iff[OF assms] by (auto simp add: bit_xor_iff)

text \<open>
  C7: for extended \<open>q\<close> and \<open>r\<close>, \<^verbatim>\<open>p4est_quadrant_is_ancestor\<close> returns true iff
  \<open>q\<close> is shallower than \<open>r\<close> and, on every axis, the coordinates of \<open>q\<close> and \<open>r\<close> agree
  on all bits from position \<open>MAXLEVEL - q.level\<close> upwards (the bits above the ones
  that the shift by \<open>MAXLEVEL - q.level\<close> drops).
\<close>

theorem is_ancestor_iff:
  assumes wf: "wf_build b"
    and q: "p4est_quadrant_is_extended b q" and r: "p4est_quadrant_is_extended b r"
  shows "p4est_quadrant_is_ancestor b q r = Some (
    sint (q_level q) < sint (q_level r) \<and>
    (\<forall>n\<ge>nat (P4EST_MAXLEVEL b - sint (q_level q)). bit (q_x r) n = bit (q_x q) n) \<and>
    (\<forall>n\<ge>nat (P4EST_MAXLEVEL b - sint (q_level q)). bit (q_y r) n = bit (q_y q) n) \<and>
    (P4_TO_P8 b \<longrightarrow>
      (\<forall>n\<ge>nat (P4EST_MAXLEVEL b - sint (q_level q)). bit (q_z r) n = bit (q_z q) n)))"
proof -
  note M = wf_buildD[OF wf]
  define k where "k = nat (P4EST_MAXLEVEL b - sint (q_level q))"
  have "0 \<le> sint (q_level q)"
    using q by (simp add: p4est_quadrant_is_extended_def)
  then have "k \<le> 31" using M by (simp add: k_def)
  note z = shifted_xor_eq_0_iff[OF this]
  have "p4est_quadrant_is_ancestor b q r = Some (
    sint (q_level q) < sint (q_level r) \<and>
    (\<forall>n\<ge>k. bit (q_x r) n = bit (q_x q) n) \<and>
    (\<forall>n\<ge>k. bit (q_y r) n = bit (q_y q) n) \<and>
    (P4_TO_P8 b \<longrightarrow> (\<forall>n\<ge>k. bit (q_z r) n = bit (q_z q) n)))"
    using q r unfolding p4est_quadrant_is_ancestor_def Let_def P4EST_ASSERT_bind
    by (simp add: z not_le flip: k_def)
  then show ?thesis by (simp only: k_def)
qed


theorem is_ancestor_iff_witness:
  "p4est_quadrant_is_ancestor build_2d \<lparr>q_x = 0, q_y = 0, q_z = 0, q_level = 0\<rparr>
     \<lparr>q_x = 536870912, q_y = 0, q_z = 0, q_level = 1\<rparr> = Some True \<and>
   \<not> bit (536870912 :: 32 word) 30"
proof -
  have "p4est_quadrant_is_ancestor build_2d \<lparr>q_x = 0, q_y = 0, q_z = 0, q_level = 0\<rparr>
     \<lparr>q_x = 536870912, q_y = 0, q_z = 0, q_level = 1\<rparr> = Some True"
    using extended_2d_root extended_2d_half
    by (simp add: p4est_quadrant_is_ancestor_def build_2d_def)
  moreover from this is_ancestor_iff[OF wf_build_2d extended_2d_root extended_2d_half]
  have "\<forall>n\<ge>30. bit (536870912 :: 32 word) n = bit (0 :: 32 word) n"
    by (simp add: build_2d_def)
  then have "\<not> bit (536870912 :: 32 word) 30" by simp
  ultimately show ?thesis by simp
qed

section \<open>Sibling test\<close>

text \<open>
  Two octants of level 2 with equal \<open>x\<close> and \<open>y\<close> whose \<open>z\<close> coordinates differ in
  the bit of level 1: they have different parents. Both are extended (they lie inside
  the root), so every assertion of the two tests passes.
\<close>

definition q3_a :: p4est_quadrant_t where
  "q3_a = \<lparr>q_x = 0, q_y = 0, q_z = 0, q_level = 2\<rparr>"

definition q3_b :: p4est_quadrant_t where
  "q3_b = \<lparr>q_x = 0, q_y = 0, q_z = 262144, q_level = 2\<rparr>"

lemma extended_q3_a: "p4est_quadrant_is_extended build_3d q3_a"
  by (simp add: p4est_quadrant_is_extended_def p4est_quadrant_is_inside_3x3_def
      P4EST_QMAXLEVEL_def P4EST_QUADRANT_LEN_def P4EST_ROOT_LEN_def build_3d_def word_sle_eq q3_a_def)

lemma extended_q3_b: "p4est_quadrant_is_extended build_3d q3_b"
  by (simp add: p4est_quadrant_is_extended_def p4est_quadrant_is_inside_3x3_def
      P4EST_QMAXLEVEL_def P4EST_QUADRANT_LEN_def P4EST_ROOT_LEN_def build_3d_def word_sle_eq q3_b_def)

lemma is_sibling_3d_at_failing_input: "p4est_quadrant_is_sibling build_3d q3_a q3_b = Some True"
  using extended_q3_a extended_q3_b
  by (simp add: p4est_quadrant_is_sibling_def) (simp add: q3_a_def q3_b_def build_3d_def)

lemma is_sibling_D_3d_at_failing_input: "p4est_quadrant_is_sibling_D build_3d q3_a q3_b = Some False"
  apply (simp add: p4est_quadrant_is_sibling_D_def p4est_quadrant_is_equal_def extended_q3_a extended_q3_b)
  apply (simp add: parent_unfold extended_q3_a extended_q3_b)
  apply (simp add: q3_a_def q3_b_def)
  apply (simp add: parent_res_def  local_quadrant_def Let_def build_3d_def P4EST_QUADRANT_LEN_def)
  apply (simp add: p4est_quadrant_is_extended_def p4est_quadrant_is_inside_3x3_def
      P4EST_QMAXLEVEL_def P4EST_QUADRANT_LEN_def P4EST_ROOT_LEN_def word_sle_eq
      p4est_quadrant_is_equal_def)
  done

text \<open>
  C9: the bit-mask test \<^verbatim>\<open>p4est_quadrant_is_sibling\<close> and the reference
  \<^verbatim>\<open>p4est_quadrant_is_sibling_D\<close> are claimed to return the same boolean for all
  extended quadrants, on every axis, in 2D and 3D. In the 3D build they differ on the
  two octants above: the mask test of \<open>z\<close> is not compiled, so the fast test answers
  true, and the reference, which compares the parents, answers false.
\<close>

theorem is_sibling_3d_disagrees:
  "p4est_quadrant_is_sibling build_3d q3_a q3_b = Some True \<and>
   p4est_quadrant_is_sibling_D build_3d q3_a q3_b = Some False"
  using is_sibling_3d_at_failing_input is_sibling_D_3d_at_failing_input by simp

section \<open>Families and children\<close>

definition child0 :: "p4est_quadrant_t \<Rightarrow> p4est_quadrant_t \<Rightarrow> p4est_quadrant_t" where
  "child0 q c0 = c0\<lparr>q_x := q_x q, q_y := q_y q, q_level := q_level q + 1\<rparr>"

definition child1 :: "build \<Rightarrow> p4est_quadrant_t \<Rightarrow> p4est_quadrant_t \<Rightarrow> p4est_quadrant_t" where
  "child1 b q c1 = c1\<lparr>q_x := q_x q OR P4EST_QUADRANT_LEN b (sint (q_level q + 1)),
                     q_y := q_y q, q_level := q_level q + 1\<rparr>"

definition child2 :: "build \<Rightarrow> p4est_quadrant_t \<Rightarrow> p4est_quadrant_t \<Rightarrow> p4est_quadrant_t" where
  "child2 b q c2 = c2\<lparr>q_x := q_x q,
                     q_y := q_y q OR P4EST_QUADRANT_LEN b (sint (q_level q + 1)),
                     q_level := q_level q + 1\<rparr>"

definition child3 :: "build \<Rightarrow> p4est_quadrant_t \<Rightarrow> p4est_quadrant_t \<Rightarrow> p4est_quadrant_t" where
  "child3 b q c3 = c3\<lparr>q_x := q_x q OR P4EST_QUADRANT_LEN b (sint (q_level q + 1)),
                     q_y := q_y q OR P4EST_QUADRANT_LEN b (sint (q_level q + 1)),
                     q_level := q_level q + 1\<rparr>"

lemma children_unfold:
  "p4est_quadrant_children b q c0 c1 c2 c3 =
     (if p4est_quadrant_is_extended b q \<and> sint (q_level q) < P4EST_QMAXLEVEL b \<and>
         p4est_quadrant_is_family b (child0 q c0) (child1 b q c1) (child2 b q c2) (child3 b q c3)
           = Some True
      then Some (child0 q c0, child1 b q c1, child2 b q c2, child3 b q c3) else None)"
proof -
  let ?t = "(child0 q c0, child1 b q c1, child2 b q c2, child3 b q c3)"
  let ?fam = "p4est_quadrant_is_family b (child0 q c0) (child1 b q c1) (child2 b q c2)
    (child3 b q c3)"
  have 1: "p4est_quadrant_children b q c0 c1 c2 c3 =
    (if p4est_quadrant_is_extended b q \<and> sint (q_level q) < P4EST_QMAXLEVEL b
     then ?fam \<bind> (\<lambda>f. if f then Some ?t else None) else None)"
    by (simp add: p4est_quadrant_children_def Let_def child0_def child1_def child2_def
        child3_def cong: if_cong)
  have 2: "(?fam \<bind> (\<lambda>f. if f then Some ?t else None)) =
    (if ?fam = Some True then Some ?t else None)"
    by (cases ?fam) auto
  show ?thesis unfolding 1 2 by simp
qed

lemma is_family_unfold:
  "p4est_quadrant_is_family b q0 q1 q2 q3 =
     (if p4est_quadrant_is_extended b q0 \<and> p4est_quadrant_is_extended b q1 \<and>
         p4est_quadrant_is_extended b q2 \<and> p4est_quadrant_is_extended b q3
      then Some (\<not> (q_level q0 = 0 \<or> q_level q0 \<noteq> q_level q1 \<or> q_level q0 \<noteq> q_level q2 \<or>
                    q_level q0 \<noteq> q_level q3) \<and>
                 (q_x q0 + P4EST_QUADRANT_LEN b (sint (q_level q0)) = q_x q1 \<and> q_y q0 = q_y q1) \<and>
                 (q_x q0 = q_x q2 \<and> q_y q0 + P4EST_QUADRANT_LEN b (sint (q_level q0)) = q_y q2) \<and>
                 (q_x q1 = q_x q3 \<and> q_y q2 = q_y q3))
      else None)"
  unfolding p4est_quadrant_is_family_def Let_def P4EST_ASSERT_bind
  by auto

lemma child_id_unfold:
  assumes "\<not> P4_TO_P8 b"
  shows "p4est_quadrant_child_id b q =
     (if p4est_quadrant_is_extended b q \<and> sint (q_level q) \<le> P4EST_MAXLEVEL b
      then Some (if sint (q_level q) = 0 then 0
                 else (if q_x q AND P4EST_QUADRANT_LEN b (sint (q_level q)) \<noteq> 0 then 1 else 0) OR
                      (if q_y q AND P4EST_QUADRANT_LEN b (sint (q_level q)) \<noteq> 0 then 2 else 0))
      else None)"
  using assms
  unfolding p4est_quadrant_child_id_def p4est_quadrant_ancestor_id_def Let_def P4EST_ASSERT_bind
  by (auto simp: p4est_quadrant_is_extended_def)

lemma child_id_0_iff:
  assumes "\<not> P4_TO_P8 b" "p4est_quadrant_is_extended b q" "wf_build b" "0 < sint (q_level q)"
  shows "p4est_quadrant_child_id b q = Some 0 \<longleftrightarrow>
    q_x q AND P4EST_QUADRANT_LEN b (sint (q_level q)) = 0 \<and>
    q_y q AND P4EST_QUADRANT_LEN b (sint (q_level q)) = 0"
proof -
  have "sint (q_level q) \<le> P4EST_MAXLEVEL b"
    using assms(2) by (simp add: p4est_quadrant_is_extended_def P4EST_QMAXLEVEL_def)
  then show ?thesis
    using assms unfolding child_id_unfold[OF assms(1)]
    by (auto simp: )
qed


lemma children_imp_family:
  assumes wf: "wf_build b" and d2: "\<not> P4_TO_P8 b"
    and ch: "p4est_quadrant_children b X c0 c1 c2 c3 = Some (q0, q1, q2, q3)"
  shows "p4est_quadrant_is_family b q0 q1 q2 q3 = Some True"
    and "p4est_quadrant_child_id b q0 = Some 0"
proof -
  from ch have eX: "p4est_quadrant_is_extended b X"
    and lX: "sint (q_level X) < P4EST_QMAXLEVEL b"
    and fam: "p4est_quadrant_is_family b (child0 X c0) (child1 b X c1) (child2 b X c2)
        (child3 b X c3) = Some True"
    and eq: "child0 X c0 = q0" "child1 b X c1 = q1" "child2 b X c2 = q2" "child3 b X c3 = q3"
    unfolding children_unfold by (simp_all split: if_splits)
  from fam show f: "p4est_quadrant_is_family b q0 q1 q2 q3 = Some True"
    unfolding eq .
  then have e0: "p4est_quadrant_is_extended b q0"
    unfolding is_family_unfold by (simp split: if_splits)
  note LX = extended_levelD[OF wf eX]
  have l0: "sint (q_level q0) = sint (q_level X) + 1"
    using sint_level_succ[of "q_level X"] LX(1,3) eq(1)[symmetric]
    by (simp add: child0_def)
  then have pos: "0 < sint (q_level q0)" using LX(1) by simp
  have lev0: "lev q0 = Suc (lev X)"
    using l0 LX(1) by (simp add: lev_def nat_add_distrib)
  have len: "P4EST_QUADRANT_LEN b (sint (q_level q0)) = 2 ^ (maxl b - lev q0)"
    using quadrant_len_eq[OF wf, of "sint (q_level q0)"] pos by (simp add: lev_def)
  from eX have cX: "ext_coord (maxl b) (maxl b - lev X) (q_x X)"
    "ext_coord (maxl b) (maxl b - lev X) (q_y X)"
    unfolding is_extended_iff[OF wf] by simp_all
  have lt: "maxl b - lev q0 < maxl b - lev X"
    using lev0 LX(5) by simp
  have "q_x q0 = q_x X" "q_y q0 = q_y X"
    using eq(1)[symmetric] by (simp_all add: child0_def)
  then have "\<not> bit (q_x q0) (maxl b - lev q0)" "\<not> bit (q_y q0) (maxl b - lev q0)"
    using ext_coord_low_bit[OF cX(1) lt] ext_coord_low_bit[OF cX(2) lt] by simp_all
  then show "p4est_quadrant_child_id b q0 = Some 0"
    unfolding child_id_0_iff[OF d2 e0 wf pos] len and_exp_eq_0_iff_not_bit by simp
qed

lemma family_imp_children:
  assumes wf: "wf_build b" and d2: "\<not> P4_TO_P8 b"
    and fam: "p4est_quadrant_is_family b q0 q1 q2 q3 = Some True"
    and cid: "p4est_quadrant_child_id b q0 = Some 0"
  shows "p4est_quadrant_children b (q0\<lparr>q_level := q_level q0 - 1\<rparr>) q0 q1 q2 q3
    = Some (q0, q1, q2, q3)"
proof -
  define X where "X = q0\<lparr>q_level := q_level q0 - 1\<rparr>"
  define inc where "inc = P4EST_QUADRANT_LEN b (sint (q_level q0))"
  from fam have e0: "p4est_quadrant_is_extended b q0"
    and nz: "q_level q0 \<noteq> 0"
    and lv: "q_level q1 = q_level q0" "q_level q2 = q_level q0" "q_level q3 = q_level q0"
    and co: "q_x q0 + inc = q_x q1" "q_y q0 = q_y q1" "q_x q0 = q_x q2" "q_y q0 + inc = q_y q2"
      "q_x q1 = q_x q3" "q_y q2 = q_y q3"
    unfolding is_family_unfold inc_def by (auto split: if_splits)
  note L0 = extended_levelD[OF wf e0]
  have "sint (q_level q0) \<noteq> 0"
    using nz signed_eq_0_iff[where 'a=int, of "q_level q0"] by simp
  with L0(1) have pos: "0 < sint (q_level q0)" by simp
  have len: "inc = 2 ^ (maxl b - lev q0)"
    unfolding inc_def using quadrant_len_eq[OF wf, of "sint (q_level q0)"] pos
    by (simp add: lev_def)
  from cid have clr: "\<not> bit (q_x q0) (maxl b - lev q0)" "\<not> bit (q_y q0) (maxl b - lev q0)"
    unfolding child_id_0_iff[OF d2 e0 wf pos] inc_def[symmetric] len and_exp_eq_0_iff_not_bit
    by simp_all
  have lX: "sint (q_level X) = sint (q_level q0) - 1"
    using sint_level_pred[OF pos] by (simp add: X_def)
  then have levX: "lev X = lev q0 - 1" "0 \<le> sint (q_level X)"
    using pos by (simp_all add: lev_def nat_diff_distrib)
  have k: "Suc (maxl b - lev q0) = maxl b - lev X"
    using levX(1) pos L0(5) by (simp add: lev_def)
  from e0 have c0: "ext_coord (maxl b) (maxl b - lev q0) (q_x q0)"
    "ext_coord (maxl b) (maxl b - lev q0) (q_y q0)"
    unfolding is_extended_iff[OF wf] by simp_all
  have eX: "p4est_quadrant_is_extended b X"
    unfolding is_extended_iff[OF wf] k[symmetric]
    using ext_coord_coarsen[OF c0(1) clr(1)] ext_coord_coarsen[OF c0(2) clr(2)] d2 levX L0(5)
    by (simp add: X_def)
  have lXq: "sint (q_level X) < P4EST_QMAXLEVEL b"
    using lX L0(2) by (simp add: P4EST_QMAXLEVEL_def)
  have lvb: "q_level X + 1 = q_level q0" by (simp add: X_def)
  have ox: "q_x q0 OR inc = q_x q0 + inc"
    using clr(1) disjunctive_add_eq_or[of "q_x q0" inc]
    unfolding len and_exp_eq_0_iff_not_bit by simp
  have oy: "q_y q0 OR inc = q_y q0 + inc"
    using clr(2) disjunctive_add_eq_or[of "q_y q0" inc]
    unfolding len and_exp_eq_0_iff_not_bit by simp
  have sel: "q_x X = q_x q0" "q_y X = q_y q0" by (simp_all add: X_def)
  have ch: "child0 X q0 = q0" "child1 b X q1 = q1" "child2 b X q2 = q2" "child3 b X q3 = q3"
    unfolding child0_def child1_def child2_def child3_def lvb sel inc_def[symmetric] ox oy
    using co lv by simp_all
  show ?thesis
    unfolding X_def[symmetric] children_unfold ch using eX lXq fam by simp
qed


lemma bit_or_pow2:
  "bit (c OR 2 ^ k) n \<longleftrightarrow> bit c n \<or> (n = k \<and> k < 32)" for c :: "32 word"
  by (auto simp add: bit_or_iff bit_exp_iff)

lemma ext_coord_child:
  assumes c: "ext_coord M (Suc k) c" and k: "k < M" and M: "M \<le> 30"
  shows "ext_coord M k c" "ext_coord M k (c OR 2 ^ k)"
proof -
  from c have lo: "\<forall>n<Suc k. \<not> bit c n" and i: "in_3x3 M c"
    unfolding ext_coord_def take_bit_eq_0_bits by simp_all
  from lo have "\<forall>n<k. \<not> bit c n" by simp
  with i show "ext_coord M k c"
    unfolding ext_coord_def take_bit_eq_0_bits by simp
  have "\<forall>n<k. \<not> bit (c OR 2 ^ k) n"
    using lo by (simp add: bit_or_pow2)
  moreover have "in_3x3 M (c OR 2 ^ k)"
    using i k M unfolding in_3x3_def bit_or_pow2 by auto
  ultimately show "ext_coord M k (c OR 2 ^ k)"
    unfolding ext_coord_def take_bit_eq_0_bits by simp
qed

lemma children_total:
  assumes wf: "wf_build b" and d2: "\<not> P4_TO_P8 b"
    and e: "p4est_quadrant_is_extended b X" and l: "sint (q_level X) < P4EST_QMAXLEVEL b"
  shows "p4est_quadrant_is_family b (child0 X c0) (child1 b X c1) (child2 b X c2)
      (child3 b X c3) = Some True"
    and "p4est_quadrant_children b X c0 c1 c2 c3 =
      Some (child0 X c0, child1 b X c1, child2 b X c2, child3 b X c3)"
proof -
  note M = wf_buildD[OF wf]
  note L = extended_levelD[OF wf e]
  define k where "k = maxl b - Suc (lev X)"
  from l have lm: "Suc (lev X) < maxl b"
    using L(4) M(3) by (simp add: P4EST_QMAXLEVEL_def)
  then have k: "k < maxl b" "Suc k = maxl b - lev X" by (simp_all add: k_def)
  have sl: "sint (q_level X + 1) = sint (q_level X) + 1"
    using sint_level_succ[of "q_level X"] L(1,3) by simp
  then have pos: "0 \<le> sint (q_level X + 1)" "sint (q_level X + 1) \<noteq> 0" using L(1) by simp_all
  have lv: "lev (q\<lparr>q_level := q_level X + 1\<rparr>) = Suc (lev X)" for q :: p4est_quadrant_t
    using sl L(1) by (simp add: lev_def nat_add_distrib)
  have nz: "q_level X + 1 \<noteq> 0"
    using pos(2) by auto
  have len: "P4EST_QUADRANT_LEN b (sint (q_level X + 1)) = 2 ^ k"
    using quadrant_len_eq[OF wf pos(1)] sl L(1) by (simp add: k_def lev_def nat_add_distrib)
  from e have cX: "ext_coord (maxl b) (Suc k) (q_x X)" "ext_coord (maxl b) (Suc k) (q_y X)"
    unfolding is_extended_iff[OF wf] k(2) by simp_all
  note cx = ext_coord_child[OF cX(1) k(1) M(2)] and cy = ext_coord_child[OF cX(2) k(1) M(2)]
  have lev': "lev (child0 X c0) = Suc (lev X)" "lev (child1 b X c1) = Suc (lev X)"
    "lev (child2 b X c2) = Suc (lev X)" "lev (child3 b X c3) = Suc (lev X)"
    using sl L(1) by (simp_all add: lev_def nat_add_distrib child0_def child1_def child2_def
        child3_def)
  have sp: "0 \<le> sint (q_level (child0 X c0))" "0 \<le> sint (q_level (child1 b X c1))"
    "0 \<le> sint (q_level (child2 b X c2))" "0 \<le> sint (q_level (child3 b X c3))"
    using pos(1) by (simp_all add: child0_def child1_def child2_def child3_def)
  have ext: "p4est_quadrant_is_extended b (child0 X c0)"
    "p4est_quadrant_is_extended b (child1 b X c1)"
    "p4est_quadrant_is_extended b (child2 b X c2)"
    "p4est_quadrant_is_extended b (child3 b X c3)"
    unfolding is_extended_iff[OF wf] lev' k_def[symmetric]
    using sp lm d2 cx cy
    by (simp_all add: child0_def child1_def child2_def child3_def len)
  from cX have clr: "\<not> bit (q_x X) k" "\<not> bit (q_y X) k"
    by (simp_all add: ext_coord_low_bit)
  have ox: "q_x X OR 2 ^ k = q_x X + 2 ^ k"
    using clr(1) disjunctive_add_eq_or[of "q_x X" "2 ^ k"]
    unfolding and_exp_eq_0_iff_not_bit by simp
  have oy: "q_y X OR 2 ^ k = q_y X + 2 ^ k"
    using clr(2) disjunctive_add_eq_or[of "q_y X" "2 ^ k"]
    unfolding and_exp_eq_0_iff_not_bit by simp
  have l0: "q_level (child0 X c0) = q_level X + 1" by (simp add: child0_def)
  show f: "p4est_quadrant_is_family b (child0 X c0) (child1 b X c1) (child2 b X c2)
      (child3 b X c3) = Some True"
    unfolding is_family_unfold l0 len
    using ext nz by (simp add: child0_def child1_def child2_def child3_def len ox oy)
  show "p4est_quadrant_children b X c0 c1 c2 c3 =
      Some (child0 X c0, child1 b X c1, child2 b X c2, child3 b X c3)"
    unfolding children_unfold using e l f by simp
qed

text \<open>The four children of the root of the 2D tree.\<close>

definition fam0 :: p4est_quadrant_t where
  "fam0 = \<lparr>q_x = 0, q_y = 0, q_z = 0, q_level = 1\<rparr>"

definition fam1 :: p4est_quadrant_t where
  "fam1 = \<lparr>q_x = 536870912, q_y = 0, q_z = 0, q_level = 1\<rparr>"

definition fam2 :: p4est_quadrant_t where
  "fam2 = \<lparr>q_x = 0, q_y = 536870912, q_z = 0, q_level = 1\<rparr>"

definition fam3 :: p4est_quadrant_t where
  "fam3 = \<lparr>q_x = 536870912, q_y = 536870912, q_z = 0, q_level = 1\<rparr>"

definition fam_root :: p4est_quadrant_t where
  "fam_root = \<lparr>q_x = 0, q_y = 0, q_z = 0, q_level = 0\<rparr>"

text \<open>
  Four quadrants of level 2 that are packed like a family but start at the second
  child of their parent: the first two are children 1 of the quadrants at \<open>x = 0\<close> and
  children 0 of the quadrants at \<open>x = 2 ^ 29\<close>.
\<close>

definition skew0 :: p4est_quadrant_t where
  "skew0 = \<lparr>q_x = 268435456, q_y = 0, q_z = 0, q_level = 2\<rparr>"

definition skew1 :: p4est_quadrant_t where
  "skew1 = \<lparr>q_x = 536870912, q_y = 0, q_z = 0, q_level = 2\<rparr>"

definition skew2 :: p4est_quadrant_t where
  "skew2 = \<lparr>q_x = 268435456, q_y = 268435456, q_z = 0, q_level = 2\<rparr>"

definition skew3 :: p4est_quadrant_t where
  "skew3 = \<lparr>q_x = 536870912, q_y = 268435456, q_z = 0, q_level = 2\<rparr>"

lemma fam_is_family: "p4est_quadrant_is_family build_2d fam0 fam1 fam2 fam3 = Some True"
  by (simp add: is_family_unfold fam0_def fam1_def fam2_def fam3_def extended_eval build_2d_def)

lemma extended_fam_root:
  "p4est_quadrant_is_extended build_2d fam_root"
  "sint (q_level fam_root) < P4EST_QMAXLEVEL build_2d"
  by (simp_all add: fam_root_def extended_eval build_2d_def)

lemma fam0_child_id: "p4est_quadrant_child_id build_2d fam0 = Some 0"
  unfolding child_id_unfold[OF not_p8_build_2d]
  by (simp add: fam0_def extended_eval build_2d_def)

lemma skew_is_family: "p4est_quadrant_is_family build_2d skew0 skew1 skew2 skew3 = Some True"
  by (simp add: is_family_unfold skew0_def skew1_def skew2_def skew3_def extended_eval
      build_2d_def)

lemma skew0_child_id: "p4est_quadrant_child_id build_2d skew0 = Some 1"
  unfolding child_id_unfold[OF not_p8_build_2d]
  by (simp add: skew0_def extended_eval build_2d_def)

theorem is_family_not_only_children:
  "p4est_quadrant_is_family build_2d skew0 skew1 skew2 skew3 = Some True \<and>
   (\<forall>X c0 c1 c2 c3.
      p4est_quadrant_children build_2d X c0 c1 c2 c3 \<noteq> Some (skew0, skew1, skew2, skew3))"
proof -
  have "p4est_quadrant_children build_2d X c0 c1 c2 c3 \<noteq> Some (skew0, skew1, skew2, skew3)"
    for X c0 c1 c2 c3
    using children_imp_family(2)[OF wf_build_2d not_p8_build_2d, of X c0 c1 c2 c3
        skew0 skew1 skew2 skew3] skew0_child_id
    by auto
  with skew_is_family show ?thesis by blast
qed

text \<open>
  C6 (as amended): in the 2D build, \<^verbatim>\<open>p4est_quadrant_is_family\<close> returns true on a tuple
  whose first member has child id 0 if and only if the tuple is exactly the output of
  \<^verbatim>\<open>p4est_quadrant_children\<close> for some quadrant \<open>X\<close>. Moreover
  \<^verbatim>\<open>p4est_quadrant_children\<close> returns for every extended \<open>X\<close> of a level below
  \<^verbatim>\<open>P4EST_QMAXLEVEL\<close>: its four outputs are one level deeper than \<open>X\<close>, lie at the
  coordinates of \<open>X\<close> plus 0 or the child length \<open>h\<close> on each axis, and
  \<^verbatim>\<open>p4est_quadrant_is_family\<close> returns true on them. (The family test alone also accepts
  tuples that start at another child.)
\<close>

theorem is_family_iff_children:
  assumes "wf_build b" "\<not> P4_TO_P8 b"
  shows "((p4est_quadrant_is_family b q0 q1 q2 q3 = Some True \<and>
           p4est_quadrant_child_id b q0 = Some 0) \<longleftrightarrow>
          (\<exists>X c0 c1 c2 c3. p4est_quadrant_children b X c0 c1 c2 c3 = Some (q0, q1, q2, q3))) \<and>
    (p4est_quadrant_is_extended b X \<and> sint (q_level X) < P4EST_QMAXLEVEL b \<longrightarrow>
      (\<exists>r0 r1 r2 r3 h. p4est_quadrant_children b X c0 c1 c2 c3 = Some (r0, r1, r2, r3) \<and>
         p4est_quadrant_is_family b r0 r1 r2 r3 = Some True \<and>
         h = P4EST_QUADRANT_LEN b (sint (q_level X) + 1) \<and>
         q_level r0 = q_level X + 1 \<and> q_level r1 = q_level X + 1 \<and>
         q_level r2 = q_level X + 1 \<and> q_level r3 = q_level X + 1 \<and>
         q_x r0 = q_x X \<and> q_y r0 = q_y X \<and>
         q_x r1 = q_x X + h \<and> q_y r1 = q_y X \<and>
         q_x r2 = q_x X \<and> q_y r2 = q_y X + h \<and>
         q_x r3 = q_x X + h \<and> q_y r3 = q_y X + h))"
proof (intro conjI impI)
  show "(p4est_quadrant_is_family b q0 q1 q2 q3 = Some True \<and>
           p4est_quadrant_child_id b q0 = Some 0) \<longleftrightarrow>
          (\<exists>X c0 c1 c2 c3. p4est_quadrant_children b X c0 c1 c2 c3 = Some (q0, q1, q2, q3))"
  proof
    assume "p4est_quadrant_is_family b q0 q1 q2 q3 = Some True \<and>
            p4est_quadrant_child_id b q0 = Some 0"
    then have "p4est_quadrant_children b (q0\<lparr>q_level := q_level q0 - 1\<rparr>) q0 q1 q2 q3
        = Some (q0, q1, q2, q3)"
      using family_imp_children[OF assms] by simp
    then show "\<exists>X c0 c1 c2 c3. p4est_quadrant_children b X c0 c1 c2 c3 = Some (q0, q1, q2, q3)"
      by (intro exI)
  next
    assume "\<exists>X c0 c1 c2 c3. p4est_quadrant_children b X c0 c1 c2 c3 = Some (q0, q1, q2, q3)"
    then obtain X c0 c1 c2 c3
      where "p4est_quadrant_children b X c0 c1 c2 c3 = Some (q0, q1, q2, q3)" by blast
    from children_imp_family[OF assms this]
    show "p4est_quadrant_is_family b q0 q1 q2 q3 = Some True \<and>
            p4est_quadrant_child_id b q0 = Some 0" by simp
  qed
next
  assume a: "p4est_quadrant_is_extended b X \<and> sint (q_level X) < P4EST_QMAXLEVEL b"
  then have e: "p4est_quadrant_is_extended b X" and l: "sint (q_level X) < P4EST_QMAXLEVEL b"
    by simp_all
  note M = wf_buildD[OF assms(1)]
  note L = extended_levelD[OF assms(1) e]
  define h where "h = P4EST_QUADRANT_LEN b (sint (q_level X) + 1)"
  have sl: "sint (q_level X + 1) = sint (q_level X) + 1"
    using sint_level_succ[of "q_level X"] L(1,3) by simp
  from l have lm: "Suc (lev X) < maxl b"
    using L(4) M(3) by (simp add: P4EST_QMAXLEVEL_def)
  have len: "h = 2 ^ (maxl b - Suc (lev X))"
    unfolding h_def using quadrant_len_eq[OF assms(1), of "sint (q_level X) + 1"] L(1)
    by (simp add: lev_def nat_add_distrib)
  from e have cX: "ext_coord (maxl b) (maxl b - lev X) (q_x X)"
    "ext_coord (maxl b) (maxl b - lev X) (q_y X)"
    unfolding is_extended_iff[OF assms(1)] by simp_all
  have lt: "maxl b - Suc (lev X) < maxl b - lev X" using lm by simp
  have ox: "q_x X OR h = q_x X + h"
    using ext_coord_low_bit[OF cX(1) lt] disjunctive_add_eq_or[of "q_x X" h]
    unfolding len and_exp_eq_0_iff_not_bit by simp
  have oy: "q_y X OR h = q_y X + h"
    using ext_coord_low_bit[OF cX(2) lt] disjunctive_add_eq_or[of "q_y X" h]
    unfolding len and_exp_eq_0_iff_not_bit by simp
  note t = children_total[OF assms e l, of c0 c1 c2 c3]
  have "q_level (child0 X c0) = q_level X + 1" "q_level (child1 b X c1) = q_level X + 1"
    "q_level (child2 b X c2) = q_level X + 1" "q_level (child3 b X c3) = q_level X + 1"
    "q_x (child0 X c0) = q_x X" "q_y (child0 X c0) = q_y X"
    "q_x (child1 b X c1) = q_x X + h" "q_y (child1 b X c1) = q_y X"
    "q_x (child2 b X c2) = q_x X" "q_y (child2 b X c2) = q_y X + h"
    "q_x (child3 b X c3) = q_x X + h" "q_y (child3 b X c3) = q_y X + h"
    using ox oy unfolding h_def sl[symmetric]
    by (simp_all add: child0_def child1_def child2_def child3_def)
  with t h_def
  show "\<exists>r0 r1 r2 r3 h. p4est_quadrant_children b X c0 c1 c2 c3 = Some (r0, r1, r2, r3) \<and>
         p4est_quadrant_is_family b r0 r1 r2 r3 = Some True \<and>
         h = P4EST_QUADRANT_LEN b (sint (q_level X) + 1) \<and>
         q_level r0 = q_level X + 1 \<and> q_level r1 = q_level X + 1 \<and>
         q_level r2 = q_level X + 1 \<and> q_level r3 = q_level X + 1 \<and>
         q_x r0 = q_x X \<and> q_y r0 = q_y X \<and>
         q_x r1 = q_x X + h \<and> q_y r1 = q_y X \<and>
         q_x r2 = q_x X \<and> q_y r2 = q_y X + h \<and>
         q_x r3 = q_x X + h \<and> q_y r3 = q_y X + h"
    by blast
qed

theorem is_family_iff_children_witness:
  "p4est_quadrant_is_family build_2d fam0 fam1 fam2 fam3 = Some True \<and>
   p4est_quadrant_child_id build_2d fam0 = Some 0 \<and>
   (\<exists>X c0 c1 c2 c3.
      p4est_quadrant_children build_2d X c0 c1 c2 c3 = Some (fam0, fam1, fam2, fam3)) \<and>
   (\<exists>r0 r1 r2 r3.
      p4est_quadrant_children build_2d fam_root fam0 fam1 fam2 fam3 = Some (r0, r1, r2, r3) \<and>
      p4est_quadrant_is_family build_2d r0 r1 r2 r3 = Some True)"
  using is_family_iff_children[OF wf_build_2d not_p8_build_2d,
      of fam0 fam1 fam2 fam3 fam_root fam0 fam1 fam2 fam3]
    fam_is_family fam0_child_id extended_fam_root
  by blast

section \<open>The total order\<close>

text \<open>
  C1: for quadrants that pass the assertion of \<^verbatim>\<open>p4est_quadrant_compare\<close> (each is
  extended or a node of the clamped kind), the comparison returns a value \<open>v\<close>. If
  the two have identical coordinates on every axis of the build, \<open>v\<close> is the difference
  of the levels, so it has its sign and is zero exactly when the levels agree.
  Otherwise an axis decides: the one whose highest differing bit position is greatest,
  ties going to the axis of higher rank (z before y before x), and \<open>v\<close> is the sign
  of the difference of the two coordinates on that axis after \<open>2 ^ (MAXLEVEL + 2)\<close> is
  added to each negative coordinate.
\<close>

theorem compare_spec:
  assumes wf: "wf_build b"
    and v1: "p4est_quadrant_is_extended b q1 \<or> p4est_quadrant_is_node b q1 True"
    and v2: "p4est_quadrant_is_extended b q2 \<or> p4est_quadrant_is_node b q2 True"
  shows "\<exists>v. p4est_quadrant_compare b q1 q2 = Some v \<and>
    (same_coords b q1 q2 \<longrightarrow> v = sint (q_level q1) - sint (q_level q2)) \<and>
    (\<not> same_coords b q1 q2 \<longrightarrow>
       (\<exists>ax. decides b q1 q2 ax) \<and>
       (\<forall>ax. decides b q1 q2 ax \<longrightarrow>
          v = sgn (shifted_coord b (coord ax q1) - shifted_coord b (coord ax q2))))"
proof (cases "same_coords b q1 q2")
  case True
  with v1 v2 show ?thesis by (auto simp add: compare_unfold comparable_def)
next
  case False
  let ?ax = "compare_axis b q1 q2"
  have c: "p4est_quadrant_compare b q1 q2 =
      Some (sgn (shifted_coord b (coord ?ax q1) - shifted_coord b (coord ?ax q2)))"
    using v1 v2 False
    by (auto simp add: compare_unfold comparable_def compare_sign_operands[OF wf])
  have d: "decides b q1 q2 ax \<longleftrightarrow> ax = ?ax" for ax
    by (rule decides_compare_axis[OF False])
  show ?thesis
    unfolding c d using False by simp
qed

theorem compare_spec_witness:
  "p4est_quadrant_compare build_2d \<lparr>q_x = 0, q_y = 0, q_z = 0, q_level = 0\<rparr>
     \<lparr>q_x = 0, q_y = 0, q_z = 0, q_level = 1\<rparr> = Some (- 1) \<and>
   p4est_quadrant_compare build_2d \<lparr>q_x = 0, q_y = 0, q_z = 0, q_level = 1\<rparr>
     \<lparr>q_x = 536870912, q_y = 536870912, q_z = 0, q_level = 1\<rparr> = Some (- 1)"
proof -
  let ?r = "\<lparr>q_x = 0, q_y = 0, q_z = 0, q_level = 0\<rparr>"
  let ?a = "\<lparr>q_x = 0, q_y = 0, q_z = 0, q_level = 1\<rparr>"
  let ?d = "\<lparr>q_x = 536870912, q_y = 536870912, q_z = 0, q_level = 1\<rparr>"
  have e: "p4est_quadrant_is_extended build_2d ?r" "p4est_quadrant_is_extended build_2d ?a"
    "p4est_quadrant_is_extended build_2d ?d"
    by (simp_all add: extended_eval build_2d_def)
  have s: "same_coords build_2d ?r ?a" "\<not> same_coords build_2d ?a ?d"
    by (simp_all add: same_coords_iff)
  have 1: "p4est_quadrant_compare build_2d ?r ?a = Some (- 1)"
    using compare_spec[OF wf_build_2d disjI1[OF e(1)] disjI1[OF e(2)]] s(1) by auto
  from compare_spec[OF wf_build_2d disjI1[OF e(2)] disjI1[OF e(3)]] s(2)
  obtain v ax where v: "p4est_quadrant_compare build_2d ?a ?d = Some v"
    and ax: "decides build_2d ?a ?d ax"
    and sg: "v = sgn (shifted_coord build_2d (coord ax ?a) - shifted_coord build_2d (coord ax ?d))"
    by blast
  from ax have "ax \<in> axes build_2d" by (simp add: decides_def)
  then have "ax = X_axis \<or> ax = Y_axis" by (simp add: axes_def build_2d_def)
  then have "v = - 1" using sg by (auto simp add: shifted_coord_def)
  with v 1 show ?thesis by simp
qed

section \<open>Agreement of the two nearest-common-ancestor algorithms\<close>

definition same_tree :: "build \<Rightarrow> p4est_quadrant_t \<Rightarrow> p4est_quadrant_t \<Rightarrow> bool" where
  "same_tree b q1 q2 \<longleftrightarrow>
     (\<forall>ax\<in>axes b. \<forall>n\<ge>nat (P4EST_MAXLEVEL b). bit (coord ax q1) n = bit (coord ax q2) n)"

lemma valid_same_tree:
  assumes wf: "wf_build b"
    and v: "p4est_quadrant_is_valid b q1" "p4est_quadrant_is_valid b q2"
  shows "same_tree b q1 q2"
proof -
  note M = wf_buildD[OF wf]
  have n: "nat (P4EST_MAXLEVEL b) = maxl b" by (simp add: maxl_def)
  from v have
    "0 \<le>s q_x q1" "q_x q1 <s 2 ^ maxl b" "0 \<le>s q_y q1" "q_y q1 <s 2 ^ maxl b"
    "0 \<le>s q_x q2" "q_x q2 <s 2 ^ maxl b" "0 \<le>s q_y q2" "q_y q2 <s 2 ^ maxl b"
    and "P4_TO_P8 b \<Longrightarrow> 0 \<le>s q_z q1" "P4_TO_P8 b \<Longrightarrow> q_z q1 <s 2 ^ maxl b"
      "P4_TO_P8 b \<Longrightarrow> 0 \<le>s q_z q2" "P4_TO_P8 b \<Longrightarrow> q_z q2 <s 2 ^ maxl b"
    unfolding p4est_quadrant_is_valid_def p4est_quadrant_is_inside_root_def root_len_eq
    by simp_all
  note h = this
  note hx = inside_root_high_bits[OF M(2) h(1,2)] inside_root_high_bits[OF M(2) h(5,6)]
  note hy = inside_root_high_bits[OF M(2) h(3,4)] inside_root_high_bits[OF M(2) h(7,8)]
  note hz = inside_root_high_bits[OF M(2) h(9,10)] inside_root_high_bits[OF M(2) h(11,12)]
  have "bit (coord ax q1) k = bit (coord ax q2) k" if "ax \<in> axes b" "maxl b \<le> k" for ax k
  proof (cases ax)
    case X_axis
    with hx that(2) show ?thesis by simp
  next
    case Y_axis
    with hy that(2) show ?thesis by simp
  next
    case Z_axis
    with that(1) have "P4_TO_P8 b" by (simp add: axes_def split: if_splits)
    with hz Z_axis that(2) show ?thesis by simp
  qed
  then show ?thesis unfolding same_tree_def n by blast
qed

text \<open>
  C4: for extended quadrants \<open>q1\<close> and \<open>q2\<close> the closed-form
  \<^verbatim>\<open>p4est_nearest_common_ancestor\<close> and the iterative
  \<^verbatim>\<open>p4est_nearest_common_ancestor_D\<close> have the same outcome: when the two lie in the
  same tree (their coordinates agree from bit \<open>MAXLEVEL\<close> upwards, so their level-0
  ancestors coincide) both return the same extended quadrant, coordinates and level
  alike; when they lie in different trees both abort on an assertion.
\<close>

theorem nca_agree:
  assumes wf: "wf_build b"
    and e1: "p4est_quadrant_is_extended b q1" and e2: "p4est_quadrant_is_extended b q2"
  shows "p4est_nearest_common_ancestor b q1 q2 r = p4est_nearest_common_ancestor_D b q1 q2 r \<and>
    (same_tree b q1 q2 \<longrightarrow>
      (\<exists>a. p4est_nearest_common_ancestor_D b q1 q2 r = Some a \<and>
           p4est_quadrant_is_extended b a)) \<and>
    (\<not> same_tree b q1 q2 \<longrightarrow> p4est_nearest_common_ancestor_D b q1 q2 r = None)"
proof -
  note M = wf_buildD[OF wf]
  define K where "K = nat (nca_maxlevel b q1 q2)"
  define l where "l = min (lev q1) (lev q2)"
  define i where "i = min l (maxl b - K)"
  have Kn: "nca_maxlevel b q1 q2 = int K"
    using nca_maxlevel_nonneg[of b q1 q2] by (simp add: K_def)
  have st: "same_tree b q1 q2 \<longleftrightarrow> K \<le> maxl b"
    using agree_maxlevel[of b q1 q2 "maxl b"]
    by (simp add: same_tree_def agree_def K_def maxl_def)
  have lq: "l \<le> lev q1" "l \<le> lev q2" by (simp_all add: l_def)
  have cl: "nca_climb b (anc b q1 l) (anc b q2 l) =
    (if K \<le> maxl b then Some (anc b q1 i, anc b q2 i) else None)"
    unfolding i_def K_def
    by (rule climb_anc[OF wf e1 e2 _ lq]) (simp add: agree_maxlevel)
  note D = nca_D_unfold[OF wf e1 e2, of r, folded l_def, unfolded cl]
  show ?thesis
  proof (cases "K \<le> maxl b")
    case False
    then have "\<not> nca_maxlevel b q1 q2 \<le> P4EST_MAXLEVEL b" using Kn M(3) by simp
    then have "p4est_nearest_common_ancestor b q1 q2 r = None" by (simp add: nca_unfold)
    moreover have "p4est_nearest_common_ancestor_D b q1 q2 r = None"
      using D False by simp
    ultimately show ?thesis using st False by simp
  next
    case True
    then have ml: "nca_maxlevel b q1 q2 \<le> P4EST_MAXLEVEL b" using Kn M(3) by simp
    have "i \<le> lev q1" by (simp add: i_def l_def)
    then have ea: "p4est_quadrant_is_extended b (anc b q1 i)"
      by (rule anc_extended[OF wf e1])
    have req: "nca_D_res b (anc b q1 i) r = nca_res b q1 q2 r"
      using nca_res_eq[OF wf e1 e2 ml, of r] by (simp add: i_def l_def K_def)
    have er: "p4est_quadrant_is_extended b (nca_res b q1 q2 r)"
      using ea unfolding req[symmetric] nca_D_res_extended .
    have 1: "p4est_nearest_common_ancestor b q1 q2 r = Some (nca_res b q1 q2 r)"
      using e1 e2 ml er by (simp add: nca_unfold)
    have 2: "p4est_nearest_common_ancestor_D b q1 q2 r = Some (nca_res b q1 q2 r)"
      using D True er req by simp
    show ?thesis using 1 2 er st True by simp
  qed
qed


theorem nca_agree_witness:
  "p4est_nearest_common_ancestor build_2d
      \<lparr>q_x = 268435456, q_y = 0, q_z = 0, q_level = 2\<rparr>
      \<lparr>q_x = 536870912, q_y = 536870912, q_z = 0, q_level = 1\<rparr> local_quadrant =
   p4est_nearest_common_ancestor_D build_2d
      \<lparr>q_x = 268435456, q_y = 0, q_z = 0, q_level = 2\<rparr>
      \<lparr>q_x = 536870912, q_y = 536870912, q_z = 0, q_level = 1\<rparr> local_quadrant \<and>
   (\<exists>a. p4est_nearest_common_ancestor_D build_2d
      \<lparr>q_x = 268435456, q_y = 0, q_z = 0, q_level = 2\<rparr>
      \<lparr>q_x = 536870912, q_y = 536870912, q_z = 0, q_level = 1\<rparr> local_quadrant = Some a)"
proof -
  let ?q1 = "\<lparr>q_x = 268435456, q_y = 0, q_z = 0, q_level = 2\<rparr>"
  let ?q2 = "\<lparr>q_x = 536870912, q_y = 536870912, q_z = 0, q_level = 1\<rparr>"
  have e: "p4est_quadrant_is_extended build_2d ?q1" "p4est_quadrant_is_extended build_2d ?q2"
    by (simp_all add: extended_eval build_2d_def)
  have v: "p4est_quadrant_is_valid build_2d ?q1" "p4est_quadrant_is_valid build_2d ?q2"
    by (simp_all add: valid_eval build_2d_def)
  note t = nca_agree[OF wf_build_2d e, of local_quadrant]
  note st = valid_same_tree[OF wf_build_2d v]
  from t have 1: "p4est_nearest_common_ancestor build_2d ?q1 ?q2 local_quadrant =
    p4est_nearest_common_ancestor_D build_2d ?q1 ?q2 local_quadrant" by (rule conjunct1)
  from t have "same_tree build_2d ?q1 ?q2 \<longrightarrow>
      (\<exists>a. p4est_nearest_common_ancestor_D build_2d ?q1 ?q2 local_quadrant = Some a \<and>
           p4est_quadrant_is_extended build_2d a)"
    by (elim conjE)
  with st obtain a where "p4est_nearest_common_ancestor_D build_2d ?q1 ?q2 local_quadrant = Some a"
    by (elim impE exE conjE)
  then have 2: "\<exists>a. p4est_nearest_common_ancestor_D build_2d ?q1 ?q2 local_quadrant = Some a"
    by (rule exI)
  from 1 2 show ?thesis by (rule conjI)
qed

lemma morton_key_zero:
  assumes "wf_build b" "q_x q = 0" "q_y q = 0" "q_z q = 0"
  shows "morton_key b q = 0"
proof (rule bit_word_eqI)
  fix j
  have "coord ax q = 0" for ax using assms(2-4) by (cases ax) simp_all
  then show "bit (morton_key b q) j \<longleftrightarrow> bit (0::64 word) j"
    unfolding bit_morton_key[OF assms(1)] by simp
qed

lemma interleave_zero: "interleave b 0 0 0 n = 0"
  by (rule bit_word_eqI) (simp add: bit_interleave pick_def)

definition q2_root :: p4est_quadrant_t where
  "q2_root = \<lparr>q_x = 0, q_y = 0, q_z = 0, q_level = 0\<rparr>"

definition q2_first :: p4est_quadrant_t where
  "q2_first = \<lparr>q_x = 0, q_y = 0, q_z = 0, q_level = 1\<rparr>"

definition q2_last :: p4est_quadrant_t where
  "q2_last = \<lparr>q_x = 536870912, q_y = 536870912, q_z = 0, q_level = 1\<rparr>"

lemma extended_q2:
  "p4est_quadrant_is_extended build_2d q2_root"
  "p4est_quadrant_is_extended build_2d q2_first"
  "p4est_quadrant_is_extended build_2d q2_last"
  by (simp_all add: extended_eval build_2d_def q2_root_def q2_first_def q2_last_def)

lemma compare_q2_root_first: "p4est_quadrant_compare build_2d q2_root q2_first = Some (- 1)"
proof -
  have "same_coords build_2d q2_root q2_first"
    by (simp add: same_coords_iff q2_root_def q2_first_def)
  then show ?thesis
    unfolding compare_extended[OF wf_build_2d extended_q2(1,2)]
    by (simp add: q2_root_def q2_first_def)
qed

lemma compare_q2_first_last: "p4est_quadrant_compare build_2d q2_first q2_last = Some (- 1)"
proof -
  let ?ax = "compare_axis build_2d q2_first q2_last"
  have s: "\<not> same_coords build_2d q2_first q2_last"
    by (simp add: same_coords_iff q2_first_def q2_last_def)
  have "?ax = X_axis \<or> ?ax = Y_axis"
    by (simp add: compare_axis_def build_2d_def)
  then have "sgn (shifted_coord build_2d (coord ?ax q2_first) -
      shifted_coord build_2d (coord ?ax q2_last)) = - 1"
    by (auto simp add: shifted_coord_def q2_first_def q2_last_def)
  then show ?thesis
    using s extended_q2(2,3)
    by (simp add: compare_unfold comparable_def compare_sign_operands[OF wf_build_2d])
qed

section \<open>Linear ids along the total order\<close>

theorem linear_id_above_level:
  "p4est_quadrant_compare build_2d q2_root q2_first = Some (- 1) \<and>
   p4est_quadrant_linear_id build_2d q2_root 1 = None \<and>
   p4est_quadrant_linear_id build_2d q2_first 1 = Some 0 \<and>
   fold (linear_id_step build_2d 0 0 0) [0..<nat (1 + 2)] 0 = 0"
proof -
  have 1: "p4est_quadrant_linear_id build_2d q2_root 1 = None"
    by (simp add: p4est_quadrant_linear_id_def q2_root_def)
  have "lev q2_first = 1" by (simp add: lev_def q2_first_def)
  then have "p4est_quadrant_linear_id build_2d q2_first (int 1) =
      Some (drop_bit (P4EST_DIM build_2d * (maxl build_2d - 1)) (morton_key build_2d q2_first))"
    by (intro linear_id_eq[OF wf_build_2d extended_q2(2)]) simp
  also have "morton_key build_2d q2_first = 0"
    by (rule morton_key_zero[OF wf_build_2d]) (simp_all add: q2_first_def)
  finally have 2: "p4est_quadrant_linear_id build_2d q2_first 1 = Some 0" by simp
  have 3: "fold (linear_id_step build_2d 0 0 0) [0..<nat (1 + 2)] 0 = 0"
    using interleave_zero[of build_2d "nat (1 + 2)"] unfolding interleave_def .
  from compare_q2_root_first 1 2 3 show ?thesis by simp
qed

text \<open>
  C3: for extended quadrants \<open>qa\<close> and \<open>qb\<close> (in particular for valid ones) and a
  level \<open>l\<close> with \<open>0 \<le> l\<close>, \<open>l \<le> qa.level\<close> and \<open>l \<le> qb.level\<close>, both linear ids at
  level \<open>l\<close> are returned; if \<^verbatim>\<open>p4est_quadrant_compare\<close> puts \<open>qa\<close> before \<open>qb\<close>, the
  linear id of \<open>qa\<close> at level \<open>l\<close> is at most that of \<open>qb\<close>, and it is strictly smaller
  when both quadrants are of level \<open>l\<close>.
\<close>

theorem linear_id_increasing:
  assumes wf: "wf_build b"
    and ea: "p4est_quadrant_is_extended b qa" and eb: "p4est_quadrant_is_extended b qb"
    and l: "0 \<le> l" "l \<le> sint (q_level qa)" "l \<le> sint (q_level qb)"
    and c: "p4est_quadrant_compare b qa qb = Some v" "v < 0"
  shows "\<exists>i1 i2. p4est_quadrant_linear_id b qa l = Some i1 \<and>
    p4est_quadrant_linear_id b qb l = Some i2 \<and> i1 \<le> i2 \<and>
    (sint (q_level qa) = l \<and> sint (q_level qb) = l \<longrightarrow> i1 < i2)"
proof -
  define n where "n = nat l"
  define k where "k = P4EST_DIM b * (maxl b - n)"
  note A = extended_levelD[OF wf ea] and B = extended_levelD[OF wf eb]
  from l have n: "l = int n" "n \<le> lev qa" "n \<le> lev qb"
    by (simp_all add: n_def lev_def)
  note ia = linear_id_eq[OF wf ea n(2), folded n(1) k_def]
  note ib = linear_id_eq[OF wf eb n(3), folded n(1) k_def]
  note cv = c(1)[unfolded compare_extended[OF wf ea eb]]
  have le: "drop_bit k (morton_key b qa) \<le> drop_bit k (morton_key b qb)"
  proof (cases "same_coords b qa qb")
    case True
    from same_coords_key[OF wf True] show ?thesis by simp
  next
    case False
    with cv c(2) have "morton_key b qa < morton_key b qb"
      by (auto split: if_splits)
    then show ?thesis by (intro drop_bit_mono) simp
  qed
  have lt: "drop_bit k (morton_key b qa) < drop_bit k (morton_key b qb)"
    if eq: "sint (q_level qa) = l" "sint (q_level qb) = l"
  proof -
    from eq have la: "lev qa = n" "lev qb = n" by (simp_all add: lev_def n_def)
    from cv c(2) eq have ns: "\<not> same_coords b qa qb" by (auto split: if_splits)
    with cv c(2) have "morton_key b qa < morton_key b qb"
      by (auto split: if_splits)
    then show ?thesis
      using morton_key_low[OF wf ea] morton_key_low[OF wf eb] unfolding la k_def[symmetric]
      by (rule drop_bit_strict_mono)
  qed
  from ia ib le lt show ?thesis by blast
qed

theorem linear_id_increasing_witness:
  "\<exists>i1 i2. p4est_quadrant_linear_id build_2d q2_first 1 = Some i1 \<and>
     p4est_quadrant_linear_id build_2d q2_last 1 = Some i2 \<and> i1 < i2"
proof -
  have l: "(0::int) \<le> 1" "1 \<le> sint (q_level q2_first)" "1 \<le> sint (q_level q2_last)"
    by (simp_all add: q2_first_def q2_last_def)
  have "(- 1 :: int) < 0" by simp
  from linear_id_increasing[OF wf_build_2d extended_q2(2,3) l compare_q2_first_last this]
  show ?thesis by (auto simp add: q2_first_def q2_last_def)
qed

definition q2_last_grandchild :: p4est_quadrant_t where
  "q2_last_grandchild = \<lparr>q_x = 268435456, q_y = 268435456, q_z = 0, q_level = 2\<rparr>"

definition q2_second :: p4est_quadrant_t where
  "q2_second = \<lparr>q_x = 536870912, q_y = 0, q_z = 0, q_level = 1\<rparr>"

lemma extended_q2_next:
  "p4est_quadrant_is_extended build_2d q2_last_grandchild"
  "p4est_quadrant_is_extended build_2d q2_second"
  by (simp_all add: extended_eval build_2d_def q2_last_grandchild_def q2_second_def)

lemma is_next_q2: "p4est_quadrant_is_next build_2d q2_last_grandchild q2_second = Some True"
proof -
  have u: "[0..<3] = [0, 1, 2]" by (simp add: upt_rec)
  have p: "(268435456 :: 32 word) = 2 ^ 28" "(536870912 :: 32 word) = 2 ^ 29" by simp_all
  have s: "signed_drop_bit 29 (268435456 :: 32 word) = 0"
    "signed_drop_bit 29 (536870912 :: 32 word) = 1"
    unfolding p by (rule bit_word_eqI; auto simp add: bit_signed_drop_bit_iff bit_exp_iff bit_1_iff)+
  show ?thesis
    using extended_q2_next
    unfolding p4est_quadrant_is_next_def p4est_quadrant_linear_id_def Let_def P4EST_ASSERT_bind
    by (simp add: q2_last_grandchild_def q2_second_def build_2d_def P4EST_QUADRANT_LEN_def
        P4EST_DIM_def linear_id_step_def u s)
qed

section \<open>Agreement of the two successor tests\<close>

text \<open>
  C5: for all extended quadrants \<open>q\<close> and \<open>r\<close>, in the 2D and in the 3D build, the
  successor test \<^verbatim>\<open>p4est_quadrant_is_next\<close> with its mask and the level-by-level
  \<^verbatim>\<open>p4est_quadrant_is_next_D\<close> return the same boolean, and both do return one (no
  assertion fails and the loop ends). This covers every pair of quadrants of a
  complete enumeration up to any level.
\<close>

theorem is_next_agree:
  assumes wf: "wf_build b"
    and eq: "p4est_quadrant_is_extended b q" and er: "p4est_quadrant_is_extended b r"
  shows "p4est_quadrant_is_next b q r = p4est_quadrant_is_next_D b q r \<and>
    (\<exists>v. p4est_quadrant_is_next_D b q r = Some v)"
proof -
  note Q = extended_levelD[OF wf eq] and R = extended_levelD[OF wf er]
  define l where "l = min (lev q) (lev r)"
  define i1 where "i1 = drop_bit (P4EST_DIM b * (maxl b - l)) (morton_key b q)"
  define i2 where "i2 = drop_bit (P4EST_DIM b * (maxl b - l)) (morton_key b r)"
  have l: "l \<le> lev q" "l \<le> lev r" "l < maxl b"
    using Q(5) by (simp_all add: l_def)
  note idq = linear_id_eq[OF wf eq l(1), folded i1_def]
  note idr = linear_id_eq[OF wf er l(2), folded i2_def]
  obtain c where c: "p4est_quadrant_compare b q r = Some c"
    unfolding compare_extended[OF wf eq er] by simp
  have before: "c < 0" if "i1 + 1 = i2"
    using next_id_before[OF wf eq er l(3) that[unfolded i1_def i2_def]] c by simp
  show ?thesis
  proof (cases "lev r < lev q")
    case True
    then have lr: "l = lev r" by (simp add: l_def)
    from True have gt: "sint (q_level q) > sint (q_level r)"
      using Q(4) R(4) by simp
    have il: "sint (q_level r) = int l" using R(4) lr by simp
    note mt = next_mask_test[OF wf eq er True]
    have n: "p4est_quadrant_is_next b q r =
        Some (last_from b q (lev q) l \<and> i1 + 1 = i2)"
      unfolding p4est_quadrant_is_next_def Let_def P4EST_ASSERT_bind mt
      using eq er gt idq idr by (simp add: il lr)
    note lp = next_loop[OF wf eq il l(1)]
    have al: "sint (q_level (anc b q l)) = int l"
      using l(3) by (intro anc_level(1)[OF wf]) simp
    note ida = linear_id_anc[OF wf eq l(1), unfolded idq]
    have d: "p4est_quadrant_is_next_D b q r =
        Some (c < 0 \<and> last_from b q (lev q) l \<and> i1 + 1 = i2)"
      unfolding p4est_quadrant_is_next_D_def c lp
      using ida idr by (simp add: al)
    from n d before show ?thesis by auto
  next
    case False
    then have lq: "l = lev q" by (simp add: l_def)
    from False have ng: "\<not> sint (q_level q) > sint (q_level r)"
      using Q(4) R(4) by simp
    have il: "sint (q_level q) = int l" using Q(4) lq by simp
    have n: "p4est_quadrant_is_next b q r = Some (i1 + 1 = i2)"
      unfolding p4est_quadrant_is_next_def Let_def P4EST_ASSERT_bind
      using eq er ng idq idr by (simp add: il)
    have d: "p4est_quadrant_is_next_D b q r = Some (c < 0 \<and> i1 + 1 = i2)"
      unfolding p4est_quadrant_is_next_D_def c is_next_D_loop_stop[OF ng]
      using idq idr by (simp add: il)
    from n d before show ?thesis by auto
  qed
qed

theorem is_next_agree_witness:
  "p4est_quadrant_is_next build_2d q2_last_grandchild q2_second = Some True \<and>
   p4est_quadrant_is_next_D build_2d q2_last_grandchild q2_second = Some True"
  using is_next_agree[OF wf_build_2d extended_q2_next] is_next_q2 by simp

section \<open>Decoding a linear id\<close>

lemma bit_extract:
  "bit (ucast (drop_bit m (lid AND push_bit p 1)) :: 32 word) j \<longleftrightarrow>
     j < 32 \<and> m + j = p \<and> bit lid p" for lid :: "64 word"
  by (auto simp add: bit_ucast_iff bit_drop_bit_eq bit_and_iff bit_exp_iff
      dest: bit_imp_le_length)

lemma dim_minus_1: "(P4EST_DIM b - 1) * i + k + j = P4EST_DIM b * i + k \<longleftrightarrow> j = i"
proof -
  have "P4EST_DIM b * i = (P4EST_DIM b - 1) * i + i"
    using dim_pos[of b] by (cases "P4EST_DIM b") simp_all
  then show ?thesis by auto
qed

lemma bit_extract_axis:
  fixes lid :: "64 word"
  shows "bit (ucast (drop_bit ((P4EST_DIM b - 1) * i + k)
      (lid AND push_bit (P4EST_DIM b * i + k) 1)) :: 32 word) j \<longleftrightarrow>
     j = i \<and> j < 32 \<and> bit lid (P4EST_DIM b * i + k)"
  unfolding bit_extract dim_minus_1 by auto

lemmas bit_extract_x = bit_extract_axis[of _ _ 0, simplified add_0_right]

lemma set_morton_step_sel:
  "bit (q_x (set_morton_step b lid i q)) j \<longleftrightarrow>
     bit (q_x q) j \<or> (j = i \<and> j < 32 \<and> bit lid (P4EST_DIM b * i))"
  "bit (q_y (set_morton_step b lid i q)) j \<longleftrightarrow>
     bit (q_y q) j \<or> (j = i \<and> j < 32 \<and> bit lid (P4EST_DIM b * i + 1))"
  "P4_TO_P8 b \<Longrightarrow> bit (q_z (set_morton_step b lid i q)) j \<longleftrightarrow>
     bit (q_z q) j \<or> (j = i \<and> j < 32 \<and> bit lid (P4EST_DIM b * i + 2))"
  "\<not> P4_TO_P8 b \<Longrightarrow> q_z (set_morton_step b lid i q) = q_z q"
  "q_level (set_morton_step b lid i q) = q_level q"
proof -
  have x: "q_x (set_morton_step b lid i q) = q_x q OR
      ucast (drop_bit ((P4EST_DIM b - 1) * i) (lid AND push_bit (P4EST_DIM b * i) 1))"
    by (simp add: set_morton_step_def Let_def)
  have y: "q_y (set_morton_step b lid i q) = q_y q OR
      ucast (drop_bit ((P4EST_DIM b - 1) * i + 1) (lid AND push_bit (P4EST_DIM b * i + 1) 1))"
    by (simp add: set_morton_step_def Let_def)
  have z: "q_z (set_morton_step b lid i q) = q_z q OR
      ucast (drop_bit ((P4EST_DIM b - 1) * i + 2) (lid AND push_bit (P4EST_DIM b * i + 2) 1))"
    if "P4_TO_P8 b"
    using that by (simp add: set_morton_step_def Let_def)
  show "bit (q_x (set_morton_step b lid i q)) j \<longleftrightarrow>
     bit (q_x q) j \<or> (j = i \<and> j < 32 \<and> bit lid (P4EST_DIM b * i))"
    unfolding x bit_or_iff bit_extract_x ..
  show "bit (q_y (set_morton_step b lid i q)) j \<longleftrightarrow>
     bit (q_y q) j \<or> (j = i \<and> j < 32 \<and> bit lid (P4EST_DIM b * i + 1))"
    unfolding y bit_or_iff bit_extract_axis ..
  show "bit (q_z (set_morton_step b lid i q)) j \<longleftrightarrow>
     bit (q_z q) j \<or> (j = i \<and> j < 32 \<and> bit lid (P4EST_DIM b * i + 2))" if "P4_TO_P8 b"
    unfolding z[OF that] bit_or_iff bit_extract_axis ..
  show "q_z (set_morton_step b lid i q) = q_z q" if "\<not> P4_TO_P8 b"
    using that by (simp add: set_morton_step_def Let_def)
  show "q_level (set_morton_step b lid i q) = q_level q"
    by (simp add: set_morton_step_def Let_def)
qed

lemma set_morton_fold_sel:
  "bit (q_x (fold (set_morton_step b lid) [0..<n] q)) j \<longleftrightarrow>
     bit (q_x q) j \<or> (j < n \<and> j < 32 \<and> bit lid (P4EST_DIM b * j))"
  "bit (q_y (fold (set_morton_step b lid) [0..<n] q)) j \<longleftrightarrow>
     bit (q_y q) j \<or> (j < n \<and> j < 32 \<and> bit lid (P4EST_DIM b * j + 1))"
  "P4_TO_P8 b \<Longrightarrow> bit (q_z (fold (set_morton_step b lid) [0..<n] q)) j \<longleftrightarrow>
     bit (q_z q) j \<or> (j < n \<and> j < 32 \<and> bit lid (P4EST_DIM b * j + 2))"
  "\<not> P4_TO_P8 b \<Longrightarrow> q_z (fold (set_morton_step b lid) [0..<n] q) = q_z q"
  "q_level (fold (set_morton_step b lid) [0..<n] q) = q_level q"
proof (induction n)
  case 0
  {
    case 1 show ?case by simp
  next
    case 2 show ?case by simp
  next
    case 3 show ?case by simp
  next
    case 4 show ?case by simp
  next
    case 5 show ?case by simp
  }
next
  case (Suc n)
  {
    case 1 show ?case by (auto simp add: set_morton_step_sel Suc.IH less_Suc_eq)
  next
    case 2 show ?case by (auto simp add: set_morton_step_sel Suc.IH less_Suc_eq)
  next
    case 3 then show ?case by (auto simp add: set_morton_step_sel Suc.IH less_Suc_eq)
  next
    case 4 then show ?case by (simp add: set_morton_step_sel Suc.IH)
  next
    case 5 show ?case by (simp add: set_morton_step_sel Suc.IH)
  }
qed

definition set_morton_init :: "build \<Rightarrow> p4est_quadrant_t \<Rightarrow> int \<Rightarrow> p4est_quadrant_t" where
  "set_morton_init b quadrant level =
     (let quadrant = quadrant\<lparr>q_level := word_of_int level\<rparr>;
          quadrant = quadrant\<lparr>q_x := 0, q_y := 0\<rparr>
      in if P4_TO_P8 b then quadrant\<lparr>q_z := 0\<rparr> else quadrant)"

definition set_morton_res ::
    "build \<Rightarrow> p4est_quadrant_t \<Rightarrow> int \<Rightarrow> 64 word \<Rightarrow> p4est_quadrant_t" where
  "set_morton_res b quadrant level lid =
     (let quadrant = fold (set_morton_step b lid) [0..<nat (level + 2)]
            (set_morton_init b quadrant level);
          quadrant = quadrant\<lparr>q_x := push_bit (nat (P4EST_MAXLEVEL b - level)) (q_x quadrant)\<rparr>;
          quadrant = quadrant\<lparr>q_y := push_bit (nat (P4EST_MAXLEVEL b - level)) (q_y quadrant)\<rparr>
      in if P4_TO_P8 b
         then (let quadrant = quadrant\<lparr>q_z := push_bit (nat (P4EST_MAXLEVEL b - level)) (q_z quadrant)\<rparr>;
                   quadrant = quadrant\<lparr>q_x := set_morton_sign b (q_x quadrant)\<rparr>;
                   quadrant = quadrant\<lparr>q_y := set_morton_sign b (q_y quadrant)\<rparr>
               in quadrant\<lparr>q_z := set_morton_sign b (q_z quadrant)\<rparr>)
         else quadrant)"

lemma set_morton_unfold:
  "p4est_quadrant_set_morton b quadrant level lid =
     (if (0 \<le> level \<and> level \<le> P4EST_QMAXLEVEL b) \<and>
         (level < P4EST_QMAXLEVEL b \<longrightarrow> lid < push_bit (P4EST_DIM b * nat (level + 2)) 1) \<and>
         p4est_quadrant_is_extended b (set_morton_res b quadrant level lid)
      then Some (set_morton_res b quadrant level lid) else None)"
  unfolding p4est_quadrant_set_morton_def set_morton_res_def set_morton_init_def Let_def
    P4EST_ASSERT_bind
  by (simp cong: if_cong)

lemma set_morton_res_sel:
  "q_x (set_morton_res b r l lid) =
     (if P4_TO_P8 b
      then set_morton_sign b (push_bit (nat (P4EST_MAXLEVEL b - l))
             (q_x (fold (set_morton_step b lid) [0..<nat (l + 2)] (set_morton_init b r l))))
      else push_bit (nat (P4EST_MAXLEVEL b - l))
             (q_x (fold (set_morton_step b lid) [0..<nat (l + 2)] (set_morton_init b r l))))"
  "q_y (set_morton_res b r l lid) =
     (if P4_TO_P8 b
      then set_morton_sign b (push_bit (nat (P4EST_MAXLEVEL b - l))
             (q_y (fold (set_morton_step b lid) [0..<nat (l + 2)] (set_morton_init b r l))))
      else push_bit (nat (P4EST_MAXLEVEL b - l))
             (q_y (fold (set_morton_step b lid) [0..<nat (l + 2)] (set_morton_init b r l))))"
  "P4_TO_P8 b \<Longrightarrow> q_z (set_morton_res b r l lid) =
      set_morton_sign b (push_bit (nat (P4EST_MAXLEVEL b - l))
             (q_z (fold (set_morton_step b lid) [0..<nat (l + 2)] (set_morton_init b r l))))"
  "\<not> P4_TO_P8 b \<Longrightarrow> q_z (set_morton_res b r l lid) = q_z r"
  "q_level (set_morton_res b r l lid) = word_of_int l"
  by (simp_all add: set_morton_res_def Let_def set_morton_fold_sel set_morton_init_def)

lemma set_morton_init_sel:
  "q_x (set_morton_init b r l) = 0" "q_y (set_morton_init b r l) = 0"
  "P4_TO_P8 b \<Longrightarrow> q_z (set_morton_init b r l) = 0"
  by (simp_all add: set_morton_init_def Let_def)

section \<open>Valid quadrants\<close>

lemma valid_coord:
  assumes wf: "wf_build b" and v: "p4est_quadrant_is_valid b q" and ax: "ax \<in> axes b"
  shows "\<forall>n\<ge>maxl b. \<not> bit (coord ax q) n"
proof -
  note M = wf_buildD[OF wf]
  from v have "0 \<le>s q_x q" "q_x q <s 2 ^ maxl b" "0 \<le>s q_y q" "q_y q <s 2 ^ maxl b"
    "P4_TO_P8 b \<Longrightarrow> 0 \<le>s q_z q" "P4_TO_P8 b \<Longrightarrow> q_z q <s 2 ^ maxl b"
    unfolding p4est_quadrant_is_valid_def p4est_quadrant_is_inside_root_def root_len_eq
    by simp_all
  with ax have "0 \<le>s coord ax q" "coord ax q <s 2 ^ maxl b"
    by (cases ax; simp add: axes_def split: if_splits)+
  then show ?thesis by (rule inside_root_high_bits[OF M(2)])
qed

lemma high_bits_in_3x3:
  assumes "M \<le> 30" "\<forall>n\<ge>M. \<not> bit c n"
  shows "in_3x3 M c"
  using assms by (simp add: in_3x3_def)

lemma valid_extended:
  assumes wf: "wf_build b" and v: "p4est_quadrant_is_valid b q"
  shows "p4est_quadrant_is_extended b q"
proof -
  note M = wf_buildD[OF wf]
  from v have l: "0 \<le> sint (q_level q)" "sint (q_level q) \<le> P4EST_QMAXLEVEL b"
    by (simp_all add: p4est_quadrant_is_valid_def)
  have len: "P4EST_QUADRANT_LEN b (sint (q_level q)) = 2 ^ (maxl b - lev q)"
    using quadrant_len_eq[OF wf l(1)] by (simp add: lev_def)
  from v have t: "take_bit (maxl b - lev q) (q_x q) = 0" "take_bit (maxl b - lev q) (q_y q) = 0"
    "P4_TO_P8 b \<Longrightarrow> take_bit (maxl b - lev q) (q_z q) = 0"
    unfolding p4est_quadrant_is_valid_def len and_pow2_minus1_eq_0 by simp_all
  have i: "in_3x3 (maxl b) (coord ax q)" if "ax \<in> axes b" for ax
    by (rule high_bits_in_3x3[OF M(2) valid_coord[OF wf v that]])
  have "in_3x3 (maxl b) (q_x q)" "in_3x3 (maxl b) (q_y q)"
    "P4_TO_P8 b \<Longrightarrow> in_3x3 (maxl b) (q_z q)"
    using i[of X_axis] i[of Y_axis] i[of Z_axis] by (simp_all add: axes_def)
  moreover have "lev q < maxl b"
    using l M(1,3) by (simp add: lev_def P4EST_QMAXLEVEL_def)
  ultimately show ?thesis
    unfolding is_extended_iff[OF wf] ext_coord_def using l(1) t by simp
qed

section \<open>Decoding the linear id of a valid quadrant\<close>

lemma linear_id_bit_axis:
  assumes wf: "wf_build b" and ax: "ax \<in> axes b"
  shows "bit (drop_bit (P4EST_DIM b * k) (morton_key b q)) (P4EST_DIM b * j + axis_rank ax) \<longleftrightarrow>
    k + j < maxl b + 2 \<and> bit (coord ax q) (k + j)"
proof -
  have e: "P4EST_DIM b * k + (P4EST_DIM b * j + axis_rank ax) =
      P4EST_DIM b * (k + j) + axis_rank ax"
    by (simp add: algebra_simps)
  show ?thesis
    unfolding bit_drop_bit_eq comp_def e bit_morton_key_at[OF wf ax] ..
qed

lemma decode_coord:
  fixes w c :: "32 word"
  assumes kl: "k + l = M" and hi: "\<forall>n\<ge>M. \<not> bit c n"
    and w: "\<And>j. bit w j \<longleftrightarrow> j < l + 2 \<and> j < 32 \<and> k + j < M + 2 \<and> bit c (k + j)"
  shows "push_bit k w = c AND NOT (mask k)"
proof (rule bit_word_eqI)
  fix n
  assume n: "n < LENGTH(32)"
  show "bit (push_bit k w) n \<longleftrightarrow> bit (c AND NOT (mask k)) n"
  proof (cases "k \<le> n")
    case True
    then have e: "k + (n - k) = n" by simp
    have "bit c n \<Longrightarrow> n < M" using hi by (meson not_le)
    then show ?thesis
      unfolding bit_push_bit_iff bit_and_not_mask w e using True n kl
      by auto
  next
    case False
    then show ?thesis by (simp add: bit_push_bit_iff bit_and_not_mask)
  qed
qed

lemma set_morton_sign_keep:
  assumes wf: "wf_build b" and p8: "P4_TO_P8 b" and hi: "\<forall>n\<ge>maxl b. \<not> bit c n"
  shows "set_morton_sign b (c AND NOT (mask k)) = c AND NOT (mask k)"
proof -
  note M = wf_buildD[OF wf]
  let ?c = "c AND NOT (mask k)"
  from M(4) p8 have m1: "maxl b + 1 \<le> 30" by (simp add: P4EST_DIM_def)
  have "\<forall>i. maxl b + 1 \<le> i \<and> i < 32 \<longrightarrow> bit ?c i = bit ?c (maxl b + 1)"
    using hi by (simp add: bit_and_not_mask)
  moreover have "maxl b + 1 < 32" using m1 by simp
  ultimately have "sint ?c < 2 ^ (maxl b + 1)"
    using sint_range_bits[of "maxl b + 1" ?c] by blast
  then have "\<not> (2 ^ (maxl b + 1) :: 32 word) \<le>s ?c"
    unfolding word_sle_eq sint_pow2[OF m1] by simp
  moreover have "nat (P4EST_MAXLEVEL b + 1) = maxl b + 1"
    using M(3) by simp
  ultimately show ?thesis
    by (simp add: set_morton_sign_def)
qed

lemma quadrant_eqI:
  fixes a c :: p4est_quadrant_t
  assumes "q_x a = q_x c" "q_y a = q_y c" "q_z a = q_z c" "q_level a = q_level c"
  shows "a = c"
  using assms by (cases a, cases c) simp

lemma linear_id_bound:
  assumes wf: "wf_build b" and n: "n < maxl b"
  shows "drop_bit (P4EST_DIM b * (maxl b - n)) (morton_key b q) < push_bit (P4EST_DIM b * (n + 2)) 1"
proof -
  note M = wf_buildD[OF wf]
  define D where "D = P4EST_DIM b"
  define w where "w = drop_bit (D * (maxl b - n)) (morton_key b q)"
  have s: "D * (maxl b - n) + D * (n + 2) = D * (maxl b + 2)"
    using n by (simp flip: distrib_left)
  from n have "n + 2 < maxl b + 2" by simp
  then have "D * (n + 2) < D * (maxl b + 2)"
    using dim_pos[of b] unfolding D_def by (rule mult_less_mono2)
  from this M(4) have N: "D * (n + 2) < 64" unfolding D_def by (rule less_le_trans)
  have "take_bit (D * (n + 2)) w = w"
  proof (rule bit_word_eqI)
    fix j
    have "j < D * (n + 2)" if "bit w j"
    proof -
      from that have "D * (maxl b - n) + j < D * (maxl b + 2)"
        unfolding w_def bit_drop_bit_eq comp_def bit_morton_key[OF wf] D_def by simp
      with s show ?thesis by simp
    qed
    then show "bit (take_bit (D * (n + 2)) w) j \<longleftrightarrow> bit w j"
      by (auto simp add: bit_take_bit_iff)
  qed
  then have "w AND mask (D * (n + 2)) = w"
    by (simp only: take_bit_eq_mask)
  moreover have "w AND mask (D * (n + 2)) < 2 ^ (D * (n + 2))"
    using N by (intro and_mask_less_size) (simp add: word_size)
  ultimately have "w < 2 ^ (D * (n + 2))" by simp
  then show ?thesis unfolding w_def D_def by simp
qed

lemma decode_axis:
  assumes wf: "wf_build b" and v: "p4est_quadrant_is_valid b q" and ax: "ax \<in> axes b"
    and n: "n < maxl b"
    and w: "\<And>j. bit w j \<longleftrightarrow> j < n + 2 \<and> j < 32 \<and>
      bit (drop_bit (P4EST_DIM b * (maxl b - n)) (morton_key b q)) (P4EST_DIM b * j + axis_rank ax)"
  shows "push_bit (maxl b - n) w = coord ax q AND NOT (mask (maxl b - n))"
proof (rule decode_coord[where l = n and M = "maxl b"])
  show "maxl b - n + n = maxl b" using n by simp
  show "\<forall>i\<ge>maxl b. \<not> bit (coord ax q) i" by (rule valid_coord[OF wf v ax])
  show "bit w j \<longleftrightarrow> j < n + 2 \<and> j < 32 \<and> maxl b - n + j < maxl b + 2 \<and>
      bit (coord ax q) (maxl b - n + j)" for j
    unfolding w linear_id_bit_axis[OF wf ax] by auto
qed

lemma set_morton_linear_id:
  assumes wf: "wf_build b" and v: "p4est_quadrant_is_valid b q" and n: "n \<le> lev q"
  shows "set_morton_res b r (int n) (drop_bit (P4EST_DIM b * (maxl b - n)) (morton_key b q)) =
    r\<lparr>q_x := q_x q AND NOT (mask (maxl b - n)),
      q_y := q_y q AND NOT (mask (maxl b - n)),
      q_z := (if P4_TO_P8 b then q_z q AND NOT (mask (maxl b - n)) else q_z r),
      q_level := of_nat n\<rparr>"
proof -
  note M = wf_buildD[OF wf]
  note e = valid_extended[OF wf v]
  from n extended_levelD(5)[OF wf e] have nm: "n < maxl b" by simp
  define lid where "lid = drop_bit (P4EST_DIM b * (maxl b - n)) (morton_key b q)"
  define F where "F = fold (set_morton_step b lid) [0..<n + 2] (set_morton_init b r (int n))"
  have k: "nat (P4EST_MAXLEVEL b - int n) = maxl b - n" "nat (int n + 2) = n + 2"
    using M(3) by simp_all
  have X: "X_axis \<in> axes b" and Y: "Y_axis \<in> axes b" by (simp_all add: axes_def)
  have px: "push_bit (maxl b - n) (q_x F) = q_x q AND NOT (mask (maxl b - n))"
    using decode_axis[OF wf v X nm, of "q_x F"]
    unfolding F_def set_morton_fold_sel set_morton_init_sel k lid_def by simp
  have py: "push_bit (maxl b - n) (q_y F) = q_y q AND NOT (mask (maxl b - n))"
    using decode_axis[OF wf v Y nm, of "q_y F"]
    unfolding F_def set_morton_fold_sel set_morton_init_sel k lid_def by simp
  have pz: "push_bit (maxl b - n) (q_z F) = q_z q AND NOT (mask (maxl b - n))" if p8: "P4_TO_P8 b"
  proof -
    from p8 have Z: "Z_axis \<in> axes b" by (simp add: axes_def)
    show ?thesis
      using decode_axis[OF wf v Z nm, of "q_z F"]
      unfolding F_def set_morton_fold_sel(3)[OF p8] set_morton_init_sel(3)[OF p8] k lid_def
      by simp
  qed
  have sg: "set_morton_sign b (coord ax q AND NOT (mask (maxl b - n))) =
      coord ax q AND NOT (mask (maxl b - n))" if "P4_TO_P8 b" "ax \<in> axes b" for ax
    by (rule set_morton_sign_keep[OF wf that(1) valid_coord[OF wf v that(2)]])
  show ?thesis
  proof (rule quadrant_eqI)
    show "q_x (set_morton_res b r (int n) (drop_bit (P4EST_DIM b * (maxl b - n)) (morton_key b q))) =
      q_x (r\<lparr>q_x := q_x q AND NOT (mask (maxl b - n)),
      q_y := q_y q AND NOT (mask (maxl b - n)),
      q_z := (if P4_TO_P8 b then q_z q AND NOT (mask (maxl b - n)) else q_z r),
      q_level := of_nat n\<rparr>)"
      unfolding set_morton_res_sel k unfolding lid_def[symmetric] unfolding F_def[symmetric] px
      using sg[OF _ X] by simp
    show "q_y (set_morton_res b r (int n) (drop_bit (P4EST_DIM b * (maxl b - n)) (morton_key b q))) =
      q_y (r\<lparr>q_x := q_x q AND NOT (mask (maxl b - n)),
      q_y := q_y q AND NOT (mask (maxl b - n)),
      q_z := (if P4_TO_P8 b then q_z q AND NOT (mask (maxl b - n)) else q_z r),
      q_level := of_nat n\<rparr>)"
      unfolding set_morton_res_sel k unfolding lid_def[symmetric] unfolding F_def[symmetric] py
      using sg[OF _ Y] by simp
    show "q_z (set_morton_res b r (int n) (drop_bit (P4EST_DIM b * (maxl b - n)) (morton_key b q))) =
      q_z (r\<lparr>q_x := q_x q AND NOT (mask (maxl b - n)),
      q_y := q_y q AND NOT (mask (maxl b - n)),
      q_z := (if P4_TO_P8 b then q_z q AND NOT (mask (maxl b - n)) else q_z r),
      q_level := of_nat n\<rparr>)"
    proof (cases "P4_TO_P8 b")
      case True
      then have Z: "Z_axis \<in> axes b" by (simp add: axes_def)
      show ?thesis
        unfolding set_morton_res_sel(3)[OF True] k unfolding lid_def[symmetric]
        unfolding F_def[symmetric] pz[OF True]
        using sg[OF True Z] True by simp
    next
      case False
      then show ?thesis by (simp add: set_morton_res_sel(4))
    qed
    show "q_level (set_morton_res b r (int n) (drop_bit (P4EST_DIM b * (maxl b - n)) (morton_key b q))) =
      q_level (r\<lparr>q_x := q_x q AND NOT (mask (maxl b - n)),
      q_y := q_y q AND NOT (mask (maxl b - n)),
      q_z := (if P4_TO_P8 b then q_z q AND NOT (mask (maxl b - n)) else q_z r),
      q_level := of_nat n\<rparr>)"
      by (simp add: set_morton_res_sel)
  qed
qed

definition q2_deep :: p4est_quadrant_t where
  "q2_deep = \<lparr>q_x = 805306368, q_y = 268435456, q_z = 0, q_level = 2\<rparr>"

lemma valid_q2_deep: "p4est_quadrant_is_valid build_2d q2_deep"
  by (simp add: valid_eval build_2d_def q2_deep_def)

lemma truncate_q2_deep:
  "(805306368 :: 32 word) AND NOT (mask 29) = 536870912"
  "(268435456 :: 32 word) AND NOT (mask 29) = 0"
  by (simp_all add: mask_eq_exp_minus_1)

section \<open>Encoding and decoding linear ids\<close>

text \<open>
  C2: for a valid quadrant \<open>q\<close> and a level \<open>l\<close> with \<open>0 \<le> l \<le> q.level\<close>,
  \<^verbatim>\<open>p4est_quadrant_linear_id\<close> returns an id, and \<^verbatim>\<open>p4est_quadrant_set_morton\<close> called
  with level \<open>l\<close> and that id returns a quadrant of level \<open>l\<close> whose coordinates are
  those of \<open>q\<close> with the bits below position \<open>MAXLEVEL - l\<close> cleared (in the 2D build
  the field \<open>z\<close> of the output is left as it was). Encoding that quadrant at level \<open>l\<close>
  gives the id back, so the two functions invert each other here.
\<close>

theorem morton_round_trip:
  assumes wf: "wf_build b" and v: "p4est_quadrant_is_valid b q"
    and l: "0 \<le> l" "l \<le> sint (q_level q)"
  shows "\<exists>lid. p4est_quadrant_linear_id b q l = Some lid \<and>
    p4est_quadrant_set_morton b r l lid =
      Some (r\<lparr>q_x := q_x q AND NOT (mask (nat (P4EST_MAXLEVEL b - l))),
              q_y := q_y q AND NOT (mask (nat (P4EST_MAXLEVEL b - l))),
              q_z := (if P4_TO_P8 b then q_z q AND NOT (mask (nat (P4EST_MAXLEVEL b - l)))
                      else q_z r),
              q_level := word_of_int l\<rparr>) \<and>
    p4est_quadrant_linear_id b
      (r\<lparr>q_x := q_x q AND NOT (mask (nat (P4EST_MAXLEVEL b - l))),
         q_y := q_y q AND NOT (mask (nat (P4EST_MAXLEVEL b - l))),
         q_z := (if P4_TO_P8 b then q_z q AND NOT (mask (nat (P4EST_MAXLEVEL b - l)))
                 else q_z r),
         q_level := word_of_int l\<rparr>) l = Some lid"
proof -
  note M = wf_buildD[OF wf]
  note e = valid_extended[OF wf v]
  note E = extended_levelD[OF wf e]
  define n where "n = nat l"
  from l have n: "l = int n" "n \<le> lev q" by (simp_all add: n_def lev_def)
  from n(2) E(5) have nm: "n < maxl b" "n \<le> maxl b" by simp_all
  have k: "nat (P4EST_MAXLEVEL b - int n) = maxl b - n" using M(3) by simp
  define lid where "lid = drop_bit (P4EST_DIM b * (maxl b - n)) (morton_key b q)"
  define t where "t = r\<lparr>q_x := q_x q AND NOT (mask (maxl b - n)),
      q_y := q_y q AND NOT (mask (maxl b - n)),
      q_z := (if P4_TO_P8 b then q_z q AND NOT (mask (maxl b - n)) else q_z r),
      q_level := of_nat n\<rparr>"
  have ts: "q_x t = q_x (anc b q n)" "q_y t = q_y (anc b q n)"
    "P4_TO_P8 b \<Longrightarrow> q_z t = q_z (anc b q n)" "q_level t = q_level (anc b q n)"
    by (simp_all add: t_def anc_sel)
  note ea = anc_extended[OF wf e n(2)]
  have et: "p4est_quadrant_is_extended b t"
    using extended_fields_cong[OF ts] ea by simp
  have lt: "lev t = n"
    using anc_level(2)[OF wf nm(2), of q] ts(4) by (simp add: lev_def)
  have 1: "p4est_quadrant_linear_id b q (int n) = Some lid"
    unfolding lid_def by (rule linear_id_eq[OF wf e n(2)])
  have res: "set_morton_res b r (int n) lid = t"
    unfolding lid_def t_def by (rule set_morton_linear_id[OF wf v n(2)])
  have a1: "0 \<le> int n \<and> int n \<le> P4EST_QMAXLEVEL b"
    using nm(1) M(3) by (simp add: P4EST_QMAXLEVEL_def)
  have "nat (int n + 2) = n + 2" by simp
  then have a2: "lid < push_bit (P4EST_DIM b * nat (int n + 2)) 1"
    using linear_id_bound[OF wf nm(1), of q] unfolding lid_def by (simp only:)
  have 2: "p4est_quadrant_set_morton b r (int n) lid = Some t"
    unfolding set_morton_unfold res using a1 a2 et by simp
  have "same_coords b t (anc b q n)"
    unfolding same_coords_iff using ts by simp
  from same_coords_key[OF wf this]
  have "p4est_quadrant_linear_id b t (int n) = p4est_quadrant_linear_id b (anc b q n) (int n)"
    using linear_id_eq[OF wf et, of n] linear_id_eq[OF wf ea, of n] lt
      anc_level(2)[OF wf nm(2), of q] by simp
  also have "\<dots> = Some lid"
    unfolding linear_id_anc[OF wf e n(2)] by (rule 1)
  finally have 3: "p4est_quadrant_linear_id b t (int n) = Some lid" .
  have "t = r\<lparr>q_x := q_x q AND NOT (mask (nat (P4EST_MAXLEVEL b - l))),
         q_y := q_y q AND NOT (mask (nat (P4EST_MAXLEVEL b - l))),
         q_z := (if P4_TO_P8 b then q_z q AND NOT (mask (nat (P4EST_MAXLEVEL b - l)))
                 else q_z r),
         q_level := word_of_int l\<rparr>"
    unfolding t_def n(1) k by simp
  with 1 2 3 show ?thesis unfolding n(1) by blast
qed

theorem morton_round_trip_witness:
  "\<exists>lid. p4est_quadrant_linear_id build_2d q2_deep 1 = Some lid \<and>
     p4est_quadrant_set_morton build_2d \<lparr>q_x = 7, q_y = 7, q_z = 7, q_level = 7\<rparr> 1 lid =
       Some \<lparr>q_x = 536870912, q_y = 0, q_z = 7, q_level = 1\<rparr> \<and>
     p4est_quadrant_linear_id build_2d \<lparr>q_x = 536870912, q_y = 0, q_z = 7, q_level = 1\<rparr> 1 =
       Some lid"
proof -
  have l: "(0::int) \<le> 1" "1 \<le> sint (q_level q2_deep)" by (simp_all add: q2_deep_def)
  from morton_round_trip[OF wf_build_2d valid_q2_deep l,
      of "\<lparr>q_x = 7, q_y = 7, q_z = 7, q_level = 7\<rparr>"]
  show ?thesis
    by (simp add: q2_deep_def build_2d_def truncate_q2_deep)
qed

end
